theory Spec2Isabelle
  imports Main "HOL-Library.Word"
begin

section \<open>Go values\<close>

text \<open>
  Run-time panics of the Go code are values of \<open>fault\<close>; a function that can panic returns
  \<open>fault + 'a\<close> with \<open>Inl\<close> for the panic. Go \<open>error\<close> values are a type of their own:
  \<open>error option\<close> is an \<open>error\<close> interface value, \<open>None\<close> being \<open>nil\<close>.
\<close>

datatype fault =
    MakeSliceOutOfRange
  | SliceBoundsOutOfRange
  | IndexOutOfRange
  | MakeChanSizeOutOfRange

datatype error = Error string | Wrapped error string

text \<open>\<open>errors.Wrap(err, msg)\<close> of github.com/pkg/errors: \<open>nil\<close> stays \<open>nil\<close>.\<close>

definition errors_Wrap :: "error option \<Rightarrow> string \<Rightarrow> error option" where
  "errors_Wrap e msg = (case e of None \<Rightarrow> None | Some x \<Rightarrow> Some (Wrapped x msg))"

subsection \<open>Slices\<close>

text \<open>
  A slice that starts at the beginning of its backing array: the array (its length is the
  capacity) and the length. \<open>nil_slice\<close> is the \<open>nil\<close> slice. Memory limits of \<open>make\<close> are
  not modelled.
\<close>

datatype 'a slice = nil_slice | Slice "'a list" nat

fun elems :: "'a slice \<Rightarrow> 'a list" where
  "elems nil_slice = []"
| "elems (Slice b n) = take n b"

fun len :: "'a slice \<Rightarrow> int" where
  "len nil_slice = 0"
| "len (Slice b n) = int n"

fun cap :: "'a slice \<Rightarrow> int" where
  "cap nil_slice = 0"
| "cap (Slice b n) = int (length b)"

text \<open>\<open>make([]T, l, c)\<close>, with the zero value of \<open>T\<close>.\<close>

definition make_slice :: "'a \<Rightarrow> int \<Rightarrow> int \<Rightarrow> fault + 'a slice" where
  "make_slice zero l c =
     (if l < 0 \<or> c < l then Inl MakeSliceOutOfRange
      else Inr (Slice (replicate (nat c) zero) (nat l)))"

text \<open>\<open>s[:n]\<close>.\<close>

fun slice_to :: "'a slice \<Rightarrow> int \<Rightarrow> fault + 'a slice" where
  "slice_to nil_slice n = (if n = 0 then Inr nil_slice else Inl SliceBoundsOutOfRange)"
| "slice_to (Slice b k) n =
     (if 0 \<le> n \<and> n \<le> int (length b) then Inr (Slice b (nat n)) else Inl SliceBoundsOutOfRange)"

text \<open>\<open>s[i]\<close> read and \<open>s[i] = v\<close>.\<close>

fun index_slice :: "'a slice \<Rightarrow> int \<Rightarrow> fault + 'a" where
  "index_slice nil_slice i = Inl IndexOutOfRange"
| "index_slice (Slice b n) i =
     (if 0 \<le> i \<and> i < int n \<and> nat i < length b then Inr (b ! nat i) else Inl IndexOutOfRange)"

fun store_slice :: "'a slice \<Rightarrow> int \<Rightarrow> 'a \<Rightarrow> fault + 'a slice" where
  "store_slice nil_slice i v = Inl IndexOutOfRange"
| "store_slice (Slice b n) i v =
     (if 0 \<le> i \<and> i < int n \<and> nat i < length b then Inr (Slice (b[nat i := v]) n)
      else Inl IndexOutOfRange)"

text \<open>A slice value is well formed when its length is within its capacity.\<close>

fun wf_slice :: "'a slice \<Rightarrow> bool" where
  "wf_slice nil_slice = True"
| "wf_slice (Slice b n) = (n \<le> length b)"

subsection \<open>\<open>sync.Pool\<close> with \<open>New: nil\<close>\<close>

text \<open>
  The pool is the list of the items put and not yet taken. \<open>Get\<close> may take any item, or
  ignore the pool and return \<open>nil\<close>: the caller of the model supplies that choice
  (\<open>None\<close>, or the position of the item).
\<close>

type_synonym 'a syncPool = "'a list"

definition pool_Get :: "'a syncPool \<Rightarrow> nat option \<Rightarrow> 'a option \<times> 'a syncPool" where
  "pool_Get p pick =
     (case pick of
        None \<Rightarrow> (None, p)
      | Some k \<Rightarrow> if k < length p then (Some (p ! k), take k p @ drop (Suc k) p) else (None, p))"

definition pool_Put :: "'a syncPool \<Rightarrow> 'a \<Rightarrow> 'a syncPool" where
  "pool_Put p x = p @ [x]"

section \<open>The data model\<close>

text \<open>
  Modelled from the spec: \<open>labels.Labels\<close> (package model/labels is not part of the
  sources). A label set is held by reference: the model keeps the slice header only, that
  is the address of the label storage and the number of labels, so two equal values
  denote the same storage.
\<close>

datatype labels = nil_labels | Labels nat nat

text \<open>
  Modelled from the spec: \<open>storepb.AggrChunk\<close> (package storepb is not part of the
  sources): the time bounds and the encoded chunk of each aggregation variant, a byte
  string when present. \<open>Reset\<close> leaves the zero value.
\<close>

type_synonym chunk = "8 word list"

record AggrChunk =
  MinTime :: "64 word"
  MaxTime :: "64 word"
  Raw :: "chunk option"
  Count_aggr :: "chunk option"
  Sum_aggr :: "chunk option"
  Min_aggr :: "chunk option"
  Max_aggr :: "chunk option"
  Counter_aggr :: "chunk option"

definition AggrChunk_zero :: AggrChunk where
  "AggrChunk_zero =
     \<lparr>MinTime = 0, MaxTime = 0, Raw = None, Count_aggr = None, Sum_aggr = None,
      Min_aggr = None, Max_aggr = None, Counter_aggr = None\<rparr>"

definition Reset :: "AggrChunk \<Rightarrow> AggrChunk" where
  "Reset m = AggrChunk_zero"

text \<open>
  The arrays of \<open>AggrChunk\<close> are shared: the chunk slice of a series entry, the slab it
  was carved from and what \<open>At\<close> has returned point to the same array, and a write through
  one of them is seen through the others. The arrays live in a memory of their own, the
  list of the arrays allocated so far, and a slice of chunks is its header: the address
  of its array (the position in that list), its length and its capacity. A new array takes
  the next address. A copy of a header shares the array.
\<close>

type_synonym chunkArrays = "AggrChunk list list"

datatype aggrChunks = nil_chunks | AggrChunks nat nat nat

fun len_chunks :: "aggrChunks \<Rightarrow> int" where
  "len_chunks nil_chunks = 0"
| "len_chunks (AggrChunks a n c) = int n"

fun cap_chunks :: "aggrChunks \<Rightarrow> int" where
  "cap_chunks nil_chunks = 0"
| "cap_chunks (AggrChunks a n c) = int c"

text \<open>The elements of a slice of chunks, read from the memory.\<close>

fun elems_chunks :: "chunkArrays \<Rightarrow> aggrChunks \<Rightarrow> AggrChunk list" where
  "elems_chunks mem nil_chunks = []"
| "elems_chunks mem (AggrChunks a n c) = (if a < length mem then take n (mem ! a) else [])"

text \<open>\<open>make([]storepb.AggrChunk, n)\<close>: a new array of \<open>n\<close> zero chunks.\<close>

definition make_chunks :: "int \<Rightarrow> chunkArrays \<Rightarrow> fault + (aggrChunks \<times> chunkArrays)" where
  "make_chunks n mem =
     (if n < 0 then Inl MakeSliceOutOfRange
      else Inr (AggrChunks (length mem) (nat n) (nat n),
                mem @ [replicate (nat n) AggrChunk_zero]))"

text \<open>\<open>s[i].f = v\<close> and \<open>s[i].Reset()\<close>: a write to the chunk at \<open>i\<close>, in the memory.\<close>

fun update_chunk ::
  "aggrChunks \<Rightarrow> int \<Rightarrow> (AggrChunk \<Rightarrow> AggrChunk) \<Rightarrow> chunkArrays \<Rightarrow> fault + chunkArrays" where
  "update_chunk nil_chunks i f mem = Inl IndexOutOfRange"
| "update_chunk (AggrChunks a n c) i f mem =
     (if 0 \<le> i \<and> i < int n \<and> a < length mem \<and> nat i < length (mem ! a)
      then Inr (mem[a := (mem ! a)[nat i := f (mem ! a ! nat i)]])
      else Inl IndexOutOfRange)"

text \<open>
  Modelled from the spec: \<open>seriesEntry\<close>, \<open>seriesChunkRef\<close>, \<open>seriesChunkRefs\<close> and
  \<open>seriesChunkRefsSet\<close> are declared in files of package storegateway that are not part
  of the sources; the fields are the ones the code under study reads and writes.
\<close>

record seriesEntry =
  lset :: labels
  chks :: aggrChunks

definition seriesEntry_zero :: seriesEntry where
  "seriesEntry_zero = \<lparr>lset = nil_labels, chks = nil_chunks\<rparr>"

record seriesChunkRef =
  blockID :: "128 word"
  ref :: "64 word"
  minTime :: "64 word"
  maxTime :: "64 word"

record seriesChunkRefs =
  lset_refs :: labels
  chunks :: "seriesChunkRef list"

record seriesChunkRefsSet =
  series_refs :: "seriesChunkRefs list"
  releasable_refs :: bool

text \<open>
  Modelled from the spec: \<open>pool.SlabPool\<close> (package pkg/util/pool is not part of the
  sources). A slab pool hands out sub-slices of its slabs, of length and capacity exactly
  the size asked for, and gives all of its slabs back at once. The model keeps the slab
  size and the sizes carved so far; what it hands out is an array of its own in the
  memory of the chunks, and zeroed.
\<close>

record slabPool =
  slabSize :: int
  carved :: "int list"

definition NewSlabPool :: "int \<Rightarrow> slabPool" where
  "NewSlabPool n = \<lparr>slabSize = n, carved = []\<rparr>"

definition SlabPool_Get ::
  "slabPool \<Rightarrow> int \<Rightarrow> chunkArrays \<Rightarrow> aggrChunks \<times> slabPool \<times> chunkArrays" where
  "SlabPool_Get p n mem =
     (AggrChunks (length mem) (nat n) (nat n), p\<lparr>carved := carved p @ [n]\<rparr>,
      mem @ [replicate (nat n) AggrChunk_zero])"

text \<open>
  \<open>chunksReleaser\<close>: the only implementation the code installs is a \<open>pool.BatchBytes\<close>
  allocated by the loader, one per batch; the number tells the batches apart.
\<close>

datatype chunksReleaser = BatchBytes nat

record seriesChunksSet =
  series :: "seriesEntry slice"
  seriesReleasable :: bool
  seriesChunksPool :: "slabPool option"
  chunksReleaser :: "chunksReleaser option"

text \<open>The zero value \<open>seriesChunksSet{}\<close>.\<close>

definition seriesChunksSet_zero :: seriesChunksSet where
  "seriesChunksSet_zero =
     \<lparr>series = nil_slice, seriesReleasable = False, seriesChunksPool = None,
      chunksReleaser = None\<rparr>"

text \<open>
  What lies outside the iterators: the contents of the package-level
  \<open>seriesEntrySlicePool\<close>, the calls that hand memory back, in program order, the
  number of \<open>pool.BatchBytes\<close> allocated so far, and the memory of the chunks. The
  call that gives a slab pool back is recorded with the memory of the chunks as the pool
  finds it.
\<close>

datatype event =
    ChunksReleaser_Release chunksReleaser
  | SlabPool_Release slabPool chunkArrays
  | SeriesEntrySlicePool_Put "seriesEntry slice"
  | RefsSet_release seriesChunkRefsSet

record world =
  seriesEntrySlicePool :: "seriesEntry slice syncPool"
  trace :: "event list"
  batches :: nat
  arrays :: chunkArrays

definition seriesChunksSlabSize :: int where
  "seriesChunksSlabSize = 1000"

section \<open>The pooled chunk-set\<close>

text \<open>
  \<open>newSeriesChunksSet\<close>. The third argument is the choice of \<open>seriesEntrySlicePool.Get\<close>.
  The local variable \<open>prealloc\<close> is \<open>nil\<close> until a pooled slice is kept.
\<close>

definition newSeriesChunksSet ::
  "int \<Rightarrow> bool \<Rightarrow> nat option \<Rightarrow> world \<Rightarrow> fault + (seriesChunksSet \<times> world)" where
  "newSeriesChunksSet seriesCapacity releasable pick w =
     (let (prealloc, w1) =
        (if releasable then
           (case pool_Get (seriesEntrySlicePool w) pick of
              (Some reused, p') \<Rightarrow>
                (if cap reused < seriesCapacity then nil_slice else reused,
                 w\<lparr>seriesEntrySlicePool := p'\<rparr>)
            | (None, p') \<Rightarrow> (nil_slice, w\<lparr>seriesEntrySlicePool := p'\<rparr>))
         else (nil_slice, w))
      in case (if prealloc = nil_slice then make_slice seriesEntry_zero 0 seriesCapacity
               else Inr prealloc) of
           Inl f \<Rightarrow> Inl f
         | Inr s \<Rightarrow>
             Inr (\<lparr>series = s, seriesReleasable = releasable, seriesChunksPool = None,
                   chunksReleaser = None\<rparr>, w1))"

text \<open>\<open>s[:0]\<close>, which cannot fail.\<close>

fun truncate0 :: "'a slice \<Rightarrow> 'a slice" where
  "truncate0 nil_slice = nil_slice"
| "truncate0 (Slice b n) = Slice b 0"

text \<open>
  The loops of \<open>release\<close>. A \<open>range\<close> loop runs over the positions of the elements the
  slice has when the loop starts. \<open>reset_chks\<close> is the inner loop over
  \<open>b.series[i].chks\<close>, which writes to the memory of the chunks (a position that the
  array does not have is left out); \<open>reset_series\<close> is the outer loop, which resets the
  chunks of entry \<open>i\<close> and then overwrites the entry with \<open>seriesEntry{}\<close>.
\<close>

definition store_chunk :: "chunkArrays \<Rightarrow> nat \<Rightarrow> nat \<Rightarrow> AggrChunk \<Rightarrow> chunkArrays" where
  "store_chunk mem a c v = (if a < length mem then mem[a := (mem ! a)[c := v]] else mem)"

fun reset_chks :: "aggrChunks \<Rightarrow> chunkArrays \<Rightarrow> chunkArrays" where
  "reset_chks nil_chunks mem = mem"
| "reset_chks (AggrChunks a n cp) mem =
     fold (\<lambda>c mem. store_chunk mem a c (Reset (mem ! a ! c))) [0..<n] mem"

fun reset_series :: "seriesEntry slice \<Rightarrow> chunkArrays \<Rightarrow> seriesEntry slice \<times> chunkArrays" where
  "reset_series nil_slice mem = (nil_slice, mem)"
| "reset_series (Slice b n) mem =
     (case fold (\<lambda>i (b, mem). (b[i := seriesEntry_zero], reset_chks (chks (b ! i)) mem))
             [0..<min n (length b)] (b, mem) of
        (b', mem') \<Rightarrow> (Slice b' n, mem'))"

definition release :: "seriesChunksSet \<Rightarrow> world \<Rightarrow> seriesChunksSet \<times> world" where
  "release b w =
     (let w1 = (case chunksReleaser b of
                  Some r \<Rightarrow> w\<lparr>trace := trace w @ [ChunksReleaser_Release r]\<rparr>
                | None \<Rightarrow> w)
      in if seriesReleasable b then
           (let (s1, mem1) = reset_series (series b) (arrays w1);
                w2 = w1\<lparr>arrays := mem1\<rparr>;
                w3 = (case seriesChunksPool b of
                        Some p \<Rightarrow> w2\<lparr>trace := trace w2 @ [SlabPool_Release p (arrays w2)]\<rparr>
                      | None \<Rightarrow> w2);
                reuse = truncate0 s1
            in (b\<lparr>series := s1\<rparr>,
                w3\<lparr>seriesEntrySlicePool := pool_Put (seriesEntrySlicePool w3) reuse,
                   trace := trace w3 @ [SeriesEntrySlicePool_Put reuse]\<rparr>))
         else (b, w1))"

text \<open>
  \<open>newSeriesAggrChunkSlice\<close>; it returns the slice, the set, whose slab pool it may
  create, and the memory of the chunks.
\<close>

definition newSeriesAggrChunkSlice ::
  "seriesChunksSet \<Rightarrow> int \<Rightarrow> chunkArrays \<Rightarrow>
     fault + (aggrChunks \<times> seriesChunksSet \<times> chunkArrays)" where
  "newSeriesAggrChunkSlice b n mem =
     (if \<not> seriesReleasable b then
        (case make_chunks n mem of Inl f \<Rightarrow> Inl f | Inr (s, mem') \<Rightarrow> Inr (s, b, mem'))
      else
        (let p = (case seriesChunksPool b of
                    None \<Rightarrow> NewSlabPool seriesChunksSlabSize
                  | Some p \<Rightarrow> p);
             (s, p', mem') = SlabPool_Get p n mem
         in Inr (s, b\<lparr>seriesChunksPool := Some p'\<rparr>, mem')))"

section \<open>Iterators\<close>

text \<open>
  An implementation of the interface \<open>Next / At / Err\<close> over its own state \<open>'u\<close>, yielding
  values of type \<open>'v\<close>. \<open>Next\<close> returns its result and the state it leaves.
\<close>

record ('u, 'v) iterator =
  it_Next :: "'u \<Rightarrow> bool \<times> 'u"
  it_At :: "'u \<Rightarrow> 'v"
  it_Err :: "'u \<Rightarrow> error option"

text \<open>Go's \<open>int\<close> has 64 bits: \<open>x++\<close> wraps around.\<close>

definition int_wrap :: "int \<Rightarrow> int" where
  "int_wrap x = (x + 2 ^ 63) mod 2 ^ 64 - 2 ^ 63"

subsection \<open>The series adapter\<close>

record 'u seriesChunksSeriesSet =
  from_iter :: 'u
  currSet :: seriesChunksSet
  currOffset :: int

definition newSeriesChunksSeriesSet :: "'u \<Rightarrow> 'u seriesChunksSeriesSet" where
  "newSeriesChunksSeriesSet u = \<lparr>from_iter = u, currSet = seriesChunksSet_zero, currOffset = 0\<rparr>"

definition seriesChunksSeriesSet_Next ::
  "('u, seriesChunksSet) iterator \<Rightarrow> 'u seriesChunksSeriesSet \<Rightarrow> world \<Rightarrow>
     bool \<times> 'u seriesChunksSeriesSet \<times> world" where
  "seriesChunksSeriesSet_Next ops b w =
     (let i = int_wrap (currOffset b + 1) in
      if i \<ge> len (series (currSet b)) then
        (let (cs, w1) = release (currSet b) w;
             (ok, u') = it_Next ops (from_iter b)
         in if \<not> ok then
              (False, b\<lparr>from_iter := u', currSet := seriesChunksSet_zero, currOffset := i\<rparr>, w1)
            else
              (True, b\<lparr>from_iter := u', currSet := it_At ops u', currOffset := 0\<rparr>, w1))
      else (True, b\<lparr>currOffset := i\<rparr>, w))"

definition seriesChunksSeriesSet_At ::
  "'u seriesChunksSeriesSet \<Rightarrow> fault + (labels \<times> aggrChunks)" where
  "seriesChunksSeriesSet_At b =
     (if currOffset b \<ge> len (series (currSet b)) then Inr (nil_labels, nil_chunks)
      else (case index_slice (series (currSet b)) (currOffset b) of
              Inl f \<Rightarrow> Inl f
            | Inr e \<Rightarrow> Inr (lset e, chks e)))"

definition seriesChunksSeriesSet_Err ::
  "('u, seriesChunksSet) iterator \<Rightarrow> 'u seriesChunksSeriesSet \<Rightarrow> error option" where
  "seriesChunksSeriesSet_Err ops b = it_Err ops (from_iter b)"

subsection \<open>The loader\<close>

text \<open>
  Modelled from the spec: \<open>bucketChunkReaders\<close> is declared in a file of package
  storegateway that is not part of the sources. Its three methods are parameters, over a
  state \<open>'r\<close> of the readers. \<open>addLoad\<close> registers one chunk reference for a slot
  \<open>(seriesIndex, chunkIndex)\<close>; \<open>load\<close> receives the series slice and the batch releaser
  (the byte pool and the query statistics are fixed collaborators of the readers) and may
  write to the backing array of the slice and to the chunks: it returns the array and
  the memory of the chunks as it leaves them.
\<close>

record 'r bucketChunkReaders =
  cr_reset :: "'r \<Rightarrow> 'r"
  cr_addLoad :: "'r \<Rightarrow> 128 word \<Rightarrow> 64 word \<Rightarrow> int \<Rightarrow> int \<Rightarrow> error option \<times> 'r"
  cr_load :: "'r \<Rightarrow> seriesEntry slice \<Rightarrow> chunksReleaser \<Rightarrow> chunkArrays \<Rightarrow>
                error option \<times> 'r \<times> seriesEntry list \<times> chunkArrays"

record ('u, 'r) loadingSeriesChunksSetIterator =
  chunkReaders :: 'r
  from_refs :: 'u
  fromBatchSize :: int
  current :: seriesChunksSet
  err :: "error option"

definition newLoadingSeriesChunksSetIterator ::
  "'r \<Rightarrow> 'u \<Rightarrow> int \<Rightarrow> ('u, 'r) loadingSeriesChunksSetIterator" where
  "newLoadingSeriesChunksSetIterator r u n =
     \<lparr>chunkReaders = r, from_refs = u, fromBatchSize = n, current = seriesChunksSet_zero,
      err = None\<rparr>"

text \<open>\<open>s[i].f = v\<close>: a write to one field of the element at \<open>i\<close>.\<close>

definition update_slice :: "'a slice \<Rightarrow> int \<Rightarrow> ('a \<Rightarrow> 'a) \<Rightarrow> fault + 'a slice" where
  "update_slice s i f =
     (case index_slice s i of Inl x \<Rightarrow> Inl x | Inr e \<Rightarrow> store_slice s i (f e))"

text \<open>The slice with its backing array replaced (the length stays).\<close>

fun with_backing :: "'a slice \<Rightarrow> 'a list \<Rightarrow> 'a slice" where
  "with_backing nil_slice b' = nil_slice"
| "with_backing (Slice b n) b' = Slice b' n"

text \<open>
  The inner loop of \<open>Next\<close> over the chunk references of series \<open>i\<close>, from chunk \<open>j\<close> on:
  it writes to the chunks of \<open>nextSet.series[i].chks\<close>, here \<open>cs\<close>, and stops at the
  first error of \<open>addLoad\<close>, which it returns unwrapped.
\<close>

fun addLoads ::
  "'r bucketChunkReaders \<Rightarrow> int \<Rightarrow> int \<Rightarrow> seriesChunkRef list \<Rightarrow> aggrChunks \<Rightarrow> 'r \<Rightarrow>
     chunkArrays \<Rightarrow> fault + (error option \<times> 'r \<times> chunkArrays)" where
  "addLoads rd i j [] cs r mem = Inr (None, r, mem)"
| "addLoads rd i j (chunk # rest) cs r mem =
     (case update_chunk cs j (\<lambda>m. m\<lparr>MinTime := minTime chunk\<rparr>) mem of
        Inl f \<Rightarrow> Inl f
      | Inr mem1 \<Rightarrow>
     (case update_chunk cs j (\<lambda>m. m\<lparr>MaxTime := maxTime chunk\<rparr>) mem1 of
        Inl f \<Rightarrow> Inl f
      | Inr mem2 \<Rightarrow>
     (case cr_addLoad rd r (blockID chunk) (ref chunk) i j of
        (Some e, r') \<Rightarrow> Inr (Some e, r', mem2)
      | (None, r') \<Rightarrow> addLoads rd i (j + 1) rest cs r' mem2)))"

text \<open>The outer loop over the series of the reference batch, from series \<open>i\<close> on.\<close>

fun convert ::
  "'r bucketChunkReaders \<Rightarrow> int \<Rightarrow> seriesChunkRefs list \<Rightarrow> seriesChunksSet \<Rightarrow> 'r \<Rightarrow>
     chunkArrays \<Rightarrow> fault + (error option \<times> seriesChunksSet \<times> 'r \<times> chunkArrays)" where
  "convert rd i [] nextSet r mem = Inr (None, nextSet, r, mem)"
| "convert rd i (s # rest) nextSet r mem =
     (case update_slice (series nextSet) i (\<lambda>e. e\<lparr>lset := lset_refs s\<rparr>) of
        Inl f \<Rightarrow> Inl f
      | Inr ser1 \<Rightarrow>
     (case newSeriesAggrChunkSlice (nextSet\<lparr>series := ser1\<rparr>) (int (length (chunks s))) mem of
        Inl f \<Rightarrow> Inl f
      | Inr (cs, nextSet1, mem1) \<Rightarrow>
     (case update_slice (series nextSet1) i (\<lambda>e. e\<lparr>chks := cs\<rparr>) of
        Inl f \<Rightarrow> Inl f
      | Inr ser2 \<Rightarrow>
     (case addLoads rd i 0 (chunks s) cs r mem1 of
        Inl f \<Rightarrow> Inl f
      | Inr (e, r', mem2) \<Rightarrow>
     (case e of
        Some x \<Rightarrow> Inr (Some x, nextSet1\<lparr>series := ser2\<rparr>, r', mem2)
      | None \<Rightarrow> convert rd (i + 1) rest (nextSet1\<lparr>series := ser2\<rparr>) r' mem2)))))"

text \<open>
  The two deferred calls, run in this order on every return after they are registered:
  the closure that releases \<open>nextSet\<close> after an error, and \<open>nextUnloaded.release()\<close>.
\<close>

definition deferred ::
  "bool \<Rightarrow> ('u, 'r) loadingSeriesChunksSetIterator \<Rightarrow> seriesChunksSet \<Rightarrow> seriesChunkRefsSet \<Rightarrow>
     world \<Rightarrow> world" where
  "deferred retHasNext c nextSet nextUnloaded w =
     (let w1 = (if \<not> retHasNext \<and> err c \<noteq> None then snd (release nextSet w) else w)
      in w1\<lparr>trace := trace w1 @ [RefsSet_release nextUnloaded]\<rparr>)"

text \<open>
  \<open>loadingSeriesChunksSetIterator.Next\<close>. \<open>refs\<close> is the upstream reference iterator,
  \<open>rd\<close> the chunk readers, \<open>pick\<close> the choice of the pool in \<open>newSeriesChunksSet\<close>.
  \<open>util_math.Max\<close> is the maximum of two integers.
\<close>

definition loadingSeriesChunksSetIterator_Next ::
  "('u, seriesChunkRefsSet) iterator \<Rightarrow> 'r bucketChunkReaders \<Rightarrow> nat option \<Rightarrow>
     ('u, 'r) loadingSeriesChunksSetIterator \<Rightarrow> world \<Rightarrow>
     fault + (bool \<times> ('u, 'r) loadingSeriesChunksSetIterator \<times> world)" where
  "loadingSeriesChunksSetIterator_Next refs rd pick c w =
     (if err c \<noteq> None then Inr (False, c, w)
      else
        (case it_Next refs (from_refs c) of
           (False, u') \<Rightarrow> Inr (False, c\<lparr>from_refs := u', err := it_Err refs u'\<rparr>, w)
         | (True, u') \<Rightarrow>
        (let nextUnloaded = it_At refs u';
             n = int (length (series_refs nextUnloaded));
             c0 = c\<lparr>from_refs := u'\<rparr>
         in
        (case newSeriesChunksSet (max (fromBatchSize c) n) True pick w of
           Inl f \<Rightarrow> Inl f
         | Inr (nextSet0, w0) \<Rightarrow>
        (case slice_to (series nextSet0) n of
           Inl f \<Rightarrow> Inl f
         | Inr s \<Rightarrow>
        (case convert rd 0 (series_refs nextUnloaded) (nextSet0\<lparr>series := s\<rparr>)
                (cr_reset rd (chunkReaders c)) (arrays w0) of
           Inl f \<Rightarrow> Inl f
         | Inr (Some e, nextSet1, r1, mem1) \<Rightarrow>
             (let c1 = c0\<lparr>chunkReaders := r1,
                         err := errors_Wrap (Some e) ''preloading chunks''\<rparr>
              in Inr (False, c1, deferred False c1 nextSet1 nextUnloaded (w0\<lparr>arrays := mem1\<rparr>)))
         | Inr (None, nextSet1, r1, mem1) \<Rightarrow>
             (let chunksPool = BatchBytes (batches w0);
                  w1 = w0\<lparr>batches := Suc (batches w0)\<rparr>
              in
             (case cr_load rd r1 (series nextSet1) chunksPool mem1 of
                (Some e, r2, b', mem2) \<Rightarrow>
                  (let c1 = c0\<lparr>chunkReaders := r2,
                              err := errors_Wrap (Some e) ''loading chunks''\<rparr>;
                       nextSet2 = nextSet1\<lparr>series := with_backing (series nextSet1) b'\<rparr>
                   in Inr (False, c1,
                           deferred False c1 nextSet2 nextUnloaded (w1\<lparr>arrays := mem2\<rparr>)))
              | (None, r2, b', mem2) \<Rightarrow>
                  (let nextSet2 = nextSet1\<lparr>series := with_backing (series nextSet1) b',
                                          chunksReleaser := Some chunksPool\<rparr>;
                       c1 = c0\<lparr>chunkReaders := r2, current := nextSet2\<rparr>
                   in Inr (True, c1,
                           deferred True c1 nextSet2 nextUnloaded (w1\<lparr>arrays := mem2\<rparr>)))))))))))"

definition loadingSeriesChunksSetIterator_At ::
  "('u, 'r) loadingSeriesChunksSetIterator \<Rightarrow> seriesChunksSet" where
  "loadingSeriesChunksSetIterator_At c = current c"

definition loadingSeriesChunksSetIterator_Err ::
  "('u, 'r) loadingSeriesChunksSetIterator \<Rightarrow> error option" where
  "loadingSeriesChunksSetIterator_Err c = err c"

subsection \<open>The preloading iterator\<close>

text \<open>
  \<open>preloadedSeriesChunksSet\<close>: what travels on the channel.
\<close>

record 'v preloadedSeriesChunksSet =
  set_pre :: 'v
  err_pre :: "error option"

text \<open>
  The goroutine that runs \<open>preload\<close> and the caller of \<open>Next\<close> share the channel
  \<open>preloaded\<close>. The model is the state of both and of the channel, with one function per
  party that takes its next step when it can. \<open>preload_pc\<close> tells where the goroutine
  stands: about to evaluate the loop condition \<open>p.from.Next()\<close>; inside the \<open>select\<close>, the
  value to send already evaluated; at the send of the error after the loop; or returned,
  the deferred \<open>close\<close> done.
\<close>

datatype 'v preload_pc =
    AtLoopHead
  | AtSelect "'v preloadedSeriesChunksSet"
  | AtFinalSend "'v preloadedSeriesChunksSet"
  | Returned

record ('u, 'v) preloadingSetIterator =
  ctx_done :: bool
  from_pre :: 'u
  current_pre :: 'v
  preloaded :: "'v preloadedSeriesChunksSet list"
  preloaded_cap :: nat
  preloaded_closed :: bool
  err_it :: "error option"
  preload_pc :: "'v preload_pc"

text \<open>
  \<open>newPreloadingSetIterator\<close>; \<open>zero\<close> is the zero value of the type \<open>Set\<close>. \<open>make\<close> of a
  channel panics on a negative size. The goroutine is started at the loop head.
\<close>

definition newPreloadingSetIterator ::
  "'v \<Rightarrow> bool \<Rightarrow> int \<Rightarrow> 'u \<Rightarrow> fault + ('u, 'v) preloadingSetIterator" where
  "newPreloadingSetIterator zero done preloadedSetsCount u =
     (if preloadedSetsCount - 1 < 0 then Inl MakeChanSizeOutOfRange
      else Inr \<lparr>ctx_done = done, from_pre = u, current_pre = zero, preloaded = [],
                preloaded_cap = nat (preloadedSetsCount - 1), preloaded_closed = False,
                err_it = None, preload_pc = AtLoopHead\<rparr>)"

text \<open>
  One step of the goroutine, \<open>None\<close> when it is blocked or has returned. In the \<open>select\<close>
  both cases may be ready: \<open>pick_done\<close> tells which one is tried. A send to the channel
  needs room in the buffer here; the hand-over to a waiting receiver is in \<open>receive\<close>.
\<close>

definition preload_step ::
  "('u, 'v) iterator \<Rightarrow> 'v \<Rightarrow> bool \<Rightarrow> ('u, 'v) preloadingSetIterator \<Rightarrow>
     ('u, 'v) preloadingSetIterator option" where
  "preload_step ops zero pick_done p =
     (case preload_pc p of
        AtLoopHead \<Rightarrow>
          (case it_Next ops (from_pre p) of
             (True, u') \<Rightarrow>
               Some (p\<lparr>from_pre := u',
                        preload_pc := AtSelect \<lparr>set_pre = it_At ops u', err_pre = None\<rparr>\<rparr>)
           | (False, u') \<Rightarrow>
               (if it_Err ops u' \<noteq> None then
                  Some (p\<lparr>from_pre := u',
                           preload_pc := AtFinalSend \<lparr>set_pre = zero, err_pre = it_Err ops u'\<rparr>\<rparr>)
                else Some (p\<lparr>from_pre := u', preload_pc := Returned, preloaded_closed := True\<rparr>)))
      | AtSelect x \<Rightarrow>
          (if pick_done then
             (if ctx_done p then Some (p\<lparr>preload_pc := Returned, preloaded_closed := True\<rparr>)
              else None)
           else
             (if length (preloaded p) < preloaded_cap p then
                Some (p\<lparr>preloaded := preloaded p @ [x], preload_pc := AtLoopHead\<rparr>)
              else None))
      | AtFinalSend x \<Rightarrow>
          (if length (preloaded p) < preloaded_cap p then
             Some (p\<lparr>preloaded := preloaded p @ [x], preload_pc := Returned,
                      preloaded_closed := True\<rparr>)
           else None)
      | Returned \<Rightarrow> None)"

text \<open>
  The receive \<open><-p.preloaded\<close> of the consumer: the oldest buffered value; with an empty
  buffer the value of a sender that is waiting, who then goes on; with an empty buffer
  and a closed channel \<open>None\<close>, which is \<open>ok = false\<close>. The outer \<open>None\<close> is a receive that
  has to wait.
\<close>

definition receive ::
  "('u, 'v) preloadingSetIterator \<Rightarrow>
     ('v preloadedSeriesChunksSet option \<times> ('u, 'v) preloadingSetIterator) option" where
  "receive p =
     (case preloaded p of
        x # rest \<Rightarrow> Some (Some x, p\<lparr>preloaded := rest\<rparr>)
      | [] \<Rightarrow>
          (case preload_pc p of
             AtSelect x \<Rightarrow> Some (Some x, p\<lparr>preload_pc := AtLoopHead\<rparr>)
           | AtFinalSend x \<Rightarrow>
               Some (Some x, p\<lparr>preload_pc := Returned, preloaded_closed := True\<rparr>)
           | AtLoopHead \<Rightarrow> None
           | Returned \<Rightarrow> (if preloaded_closed p then Some (None, p) else None)))"

text \<open>\<open>preloadingSetIterator.Next\<close>, \<open>None\<close> while the receive has to wait.\<close>

definition preloadingSetIterator_Next ::
  "('u, 'v) preloadingSetIterator \<Rightarrow> (bool \<times> ('u, 'v) preloadingSetIterator) option" where
  "preloadingSetIterator_Next p =
     (case receive p of
        None \<Rightarrow> None
      | Some (None, p1) \<Rightarrow> Some (False, p1)
      | Some (Some x, p1) \<Rightarrow>
          (let p2 = p1\<lparr>current_pre := set_pre x, err_it := err_pre x\<rparr>
           in Some (err_it p2 = None, p2)))"

definition preloadingSetIterator_At :: "('u, 'v) preloadingSetIterator \<Rightarrow> 'v" where
  "preloadingSetIterator_At p = current_pre p"

definition preloadingSetIterator_Err :: "('u, 'v) preloadingSetIterator \<Rightarrow> error option" where
  "preloadingSetIterator_Err p = err_it p"

text \<open>
  A run of the two parties and of the context: the goroutine takes a step, the context is
  cancelled, or the consumer calls \<open>Next\<close>. A step that is not possible in the state it
  meets is left out of the run. The run collects, for each call of \<open>Next\<close> that returns,
  its result and the value of \<open>Err\<close> after it.
\<close>

datatype action = Preload bool | Cancel | CallNext

fun run ::
  "('u, 'v) iterator \<Rightarrow> 'v \<Rightarrow> action list \<Rightarrow> ('u, 'v) preloadingSetIterator \<Rightarrow>
     (bool \<times> error option) list \<times> ('u, 'v) preloadingSetIterator" where
  "run ops zero [] p = ([], p)"
| "run ops zero (Preload d # as) p =
     (case preload_step ops zero d p of
        None \<Rightarrow> run ops zero as p
      | Some p' \<Rightarrow> run ops zero as p')"
| "run ops zero (Cancel # as) p = run ops zero as (p\<lparr>ctx_done := True\<rparr>)"
| "run ops zero (CallNext # as) p =
     (case preloadingSetIterator_Next p of
        None \<Rightarrow> run ops zero as p
      | Some (ok, p') \<Rightarrow>
          (case run ops zero as p' of
             (rs, q) \<Rightarrow> ((ok, preloadingSetIterator_Err p') # rs, q)))"

section \<open>The cache adapter\<close>

text \<open>
  \<open>MemcachedCache\<close>, with the client \<open>memcached\<close> as a state \<open>'m\<close>. The two counters hold
  the sum of what was added to them; the rounding of Prometheus' 64-bit floats is not
  modelled. A Go \<open>map[string][]byte\<close> is a finite map, its \<open>len\<close> the number of its keys.
\<close>

record 'm MemcachedCache =
  memcached :: 'm
  name :: string
  requests :: nat
  hits :: nat

text \<open>\<open>Fetch\<close>; \<open>getMulti\<close> is the method \<open>GetMulti\<close> of the client.\<close>

definition Fetch ::
  "('m \<Rightarrow> string list \<Rightarrow> (string \<rightharpoonup> chunk) \<times> 'm) \<Rightarrow> 'm MemcachedCache \<Rightarrow> string list \<Rightarrow>
     (string \<rightharpoonup> chunk) \<times> 'm MemcachedCache" where
  "Fetch getMulti c keys =
     (let c1 = c\<lparr>requests := requests c + length keys\<rparr>;
          (results, m') = getMulti (memcached c1) keys;
          c2 = c1\<lparr>memcached := m', hits := hits c1 + card (dom results)\<rparr>
      in (results, c2))"

text \<open>
  Modelled from the spec: the interface \<open>RemoteCacheClient\<close> and its implementations
  are not part of the sources. \<open>GetMulti\<close> is a bulk get that returns only hits, and an
  empty map on any transport error. The client is what the remote cache stores and
  whether the transport fails on the next request.
\<close>

record remoteCache =
  stored :: "string \<rightharpoonup> chunk"
  transport_fails :: bool

definition GetMulti :: "remoteCache \<Rightarrow> string list \<Rightarrow> (string \<rightharpoonup> chunk) \<times> remoteCache" where
  "GetMulti m keys =
     (if transport_fails m then (Map.empty, m) else (stored m |` set keys, m))"

section \<open>Vocabulary of the properties\<close>

text \<open>
  Every slice that \<open>release\<close> puts into \<open>seriesEntrySlicePool\<close> has length 0, and nothing
  else in the package puts into that pool: the pools that arise hold slices of length 0.
\<close>

definition pool_lengths_zero :: "world \<Rightarrow> bool" where
  "pool_lengths_zero w = list_all (\<lambda>s. len s = 0) (seriesEntrySlicePool w)"

text \<open>
  The calls that \<open>release\<close> makes on a set, in program order, \<open>mem\<close> being the memory of
  the chunks that the slab pool finds and \<open>reuse\<close> the slice put into the pool.
\<close>

definition released_events ::
  "seriesChunksSet \<Rightarrow> chunkArrays \<Rightarrow> seriesEntry slice \<Rightarrow> event list" where
  "released_events b mem reuse =
     (case chunksReleaser b of Some r \<Rightarrow> [ChunksReleaser_Release r] | None \<Rightarrow> [])
     @ (if seriesReleasable b then
          (case seriesChunksPool b of Some p \<Rightarrow> [SlabPool_Release p mem] | None \<Rightarrow> [])
          @ [SeriesEntrySlicePool_Put reuse]
        else [])"

text \<open>
  The chunk at position \<open>k\<close> of the array at \<open>a\<close> is a chunk of the slice, and of one of
  the entries.
\<close>

fun chunk_of :: "aggrChunks \<Rightarrow> nat \<Rightarrow> nat \<Rightarrow> bool" where
  "chunk_of nil_chunks a k = False"
| "chunk_of (AggrChunks a' n c) a k = (a' = a \<and> k < n)"

definition chunk_of_entries :: "seriesEntry list \<Rightarrow> nat \<Rightarrow> nat \<Rightarrow> bool" where
  "chunk_of_entries es a k = list_ex (\<lambda>e. chunk_of (chks e) a k) es"

text \<open>The state after a number of calls of \<open>Next\<close> (calls of \<open>At\<close> leave the state alone).\<close>

fun nexts ::
  "('u, seriesChunksSet) iterator \<Rightarrow> nat \<Rightarrow> 'u seriesChunksSeriesSet \<Rightarrow> world \<Rightarrow>
     'u seriesChunksSeriesSet \<times> world" where
  "nexts ops 0 b w = (b, w)"
| "nexts ops (Suc n) b w =
     (case seriesChunksSeriesSet_Next ops b w of (ok, b', w') \<Rightarrow> nexts ops n b' w')"

text \<open>
  What holds in every state of the goroutine, the channel and the consumer: the buffer is
  within the capacity; the channel is closed exactly when the goroutine has returned; a
  value waiting in the \<open>select\<close> carries no error and the value of the final send
  carries one; and only the last value of the buffer can carry an error, the goroutine
  having returned by then.
\<close>

definition preload_inv :: "('u, 'v) preloadingSetIterator \<Rightarrow> bool" where
  "preload_inv p \<longleftrightarrow>
     length (preloaded p) \<le> preloaded_cap p
   \<and> (preloaded_closed p \<longleftrightarrow> preload_pc p = Returned)
   \<and> (case preload_pc p of
         AtSelect x \<Rightarrow> err_pre x = None
       | AtFinalSend x \<Rightarrow> err_pre x \<noteq> None
       | _ \<Rightarrow> True)
   \<and> list_all (\<lambda>x. err_pre x = None) (butlast (preloaded p))
   \<and> (preloaded p \<noteq> [] \<and> err_pre (last (preloaded p)) \<noteq> None \<longrightarrow> preload_pc p = Returned)"

text \<open>The iteration is over: nothing is buffered, the goroutine has returned, the channel is closed.\<close>

definition drained :: "('u, 'v) preloadingSetIterator \<Rightarrow> bool" where
  "drained p \<longleftrightarrow> preloaded p = [] \<and> preloaded_closed p \<and> preload_pc p = Returned"

text \<open>
  The goroutine and the consumer taking turns: in each round the goroutine takes two
  steps (to the \<open>select\<close> or to the final send, and the send when the buffer has room)
  and the consumer calls \<open>Next\<close>.
\<close>

definition rounds :: "nat \<Rightarrow> action list" where
  "rounds k = concat (replicate k [Preload False, Preload False, CallNext])"

text \<open>
  What an upstream at state \<open>u\<close> yields to \<open>k\<close> calls of \<open>Next\<close> of a consumer that holds
  the error \<open>e\<close>: true with no error for each value, and from the exhaustion on false
  with the upstream's error, or with \<open>e\<close> when the upstream has none.
\<close>

fun upstream_results ::
  "('u, 'v) iterator \<Rightarrow> nat \<Rightarrow> 'u \<Rightarrow> error option \<Rightarrow> (bool \<times> error option) list" where
  "upstream_results ops 0 u e = []"
| "upstream_results ops (Suc k) u e =
     (case it_Next ops u of
        (True, u') \<Rightarrow> (True, None) # upstream_results ops k u' None
      | (False, u') \<Rightarrow>
          replicate (Suc k) (False, if it_Err ops u' = None then e else it_Err ops u'))"

text \<open>
  In a list of results of \<open>Next\<close>, each with the value of \<open>Err\<close> after the call: after a
  call that returned false, every later call returned false with the same \<open>Err\<close>.
\<close>

fun false_is_final :: "(bool \<times> error option) list \<Rightarrow> bool" where
  "false_is_final [] = True"
| "false_is_final ((ok, e) # rs) =
     ((\<not> ok \<longrightarrow> list_all (\<lambda>r. r = (False, e)) rs) \<and> false_is_final rs)"

text \<open>
  Chunk fidelity of an output series entry against the series of chunk references it was
  made from: the same label set (the same reference), as many chunks as references, and
  the time bounds of each reference in the chunk at its position.
\<close>

definition chunk_fidelity :: "chunkArrays \<Rightarrow> seriesChunkRefs \<Rightarrow> seriesEntry \<Rightarrow> bool" where
  "chunk_fidelity mem s e \<longleftrightarrow>
     lset e = lset_refs s
   \<and> len_chunks (chks e) = int (length (chunks s))
   \<and> map MinTime (elems_chunks mem (chks e)) = map minTime (chunks s)
   \<and> map MaxTime (elems_chunks mem (chks e)) = map maxTime (chunks s)"

text \<open>
  Modelled from the spec: \<open>load\<close> fills the encoded chunks of the \<open>AggrChunk\<close> slots in
  place. Of that, the properties need that a successful \<open>load\<close> leaves the label set, the
  number of chunks and the time bounds of every entry of the slice as they are.
\<close>

definition same_bounds ::
  "chunkArrays \<Rightarrow> chunkArrays \<Rightarrow> seriesEntry \<Rightarrow> seriesEntry \<Rightarrow> bool" where
  "same_bounds mem mem' e e' \<longleftrightarrow>
     lset e' = lset e
   \<and> len_chunks (chks e') = len_chunks (chks e)
   \<and> map MinTime (elems_chunks mem' (chks e')) = map MinTime (elems_chunks mem (chks e))
   \<and> map MaxTime (elems_chunks mem' (chks e')) = map MaxTime (elems_chunks mem (chks e))"

definition load_keeps_bounds :: "'r bucketChunkReaders \<Rightarrow> bool" where
  "load_keeps_bounds rd \<longleftrightarrow>
     (\<forall>r s rel mem r' b' mem'. cr_load rd r s rel mem = (None, r', b', mem')
        \<longrightarrow> list_all2 (same_bounds mem mem') (elems s) (elems (with_backing s b')))"

text \<open>
  The calls of \<open>addLoad\<close> that \<open>Next\<close> makes for a batch, in order: one per chunk reference,
  with the index of the series and of the chunk. \<open>addLoad_all\<close> makes the calls up to the
  first error.
\<close>

fun chunk_slots :: "int \<Rightarrow> int \<Rightarrow> seriesChunkRef list \<Rightarrow> (128 word \<times> 64 word \<times> int \<times> int) list" where
  "chunk_slots i j [] = []"
| "chunk_slots i j (c # cs) = (blockID c, ref c, i, j) # chunk_slots i (j + 1) cs"

fun batch_slots :: "int \<Rightarrow> seriesChunkRefs list \<Rightarrow> (128 word \<times> 64 word \<times> int \<times> int) list" where
  "batch_slots i [] = []"
| "batch_slots i (s # rest) = chunk_slots i 0 (chunks s) @ batch_slots (i + 1) rest"

fun addLoad_all ::
  "'r bucketChunkReaders \<Rightarrow> 'r \<Rightarrow> (128 word \<times> 64 word \<times> int \<times> int) list \<Rightarrow> error option \<times> 'r" where
  "addLoad_all rd r [] = (None, r)"
| "addLoad_all rd r ((b, rf, i, j) # rest) =
     (case cr_addLoad rd r b rf i j of
        (Some e, r') \<Rightarrow> (Some e, r')
      | (None, r') \<Rightarrow> addLoad_all rd r' rest)"

text \<open>
  The law of an iterator, at every state of it: after a \<open>Next\<close> that returned false, the
  next \<open>Next\<close> returns false and leaves \<open>Err\<close> as it was. (By induction the same holds
  for every later call.)
\<close>

definition exhaustion_is_final :: "('u, 'v) iterator \<Rightarrow> bool" where
  "exhaustion_is_final ops \<longleftrightarrow>
     (\<forall>u u'. it_Next ops u = (False, u')
        \<longrightarrow> \<not> fst (it_Next ops u') \<and> it_Err ops (snd (it_Next ops u')) = it_Err ops u')"

text \<open>
  Calls of \<open>Next\<close> of the loader one after the other, one pool choice per call, with the
  result of each call and \<open>Err\<close> after it.
\<close>

fun loading_calls ::
  "('u, seriesChunkRefsSet) iterator \<Rightarrow> 'r bucketChunkReaders \<Rightarrow> nat option list \<Rightarrow>
     ('u, 'r) loadingSeriesChunksSetIterator \<Rightarrow> world \<Rightarrow>
     fault + ((bool \<times> error option) list \<times> ('u, 'r) loadingSeriesChunksSetIterator \<times> world)" where
  "loading_calls refs rd [] c w = Inr ([], c, w)"
| "loading_calls refs rd (pick # picks) c w =
     (case loadingSeriesChunksSetIterator_Next refs rd pick c w of
        Inl f \<Rightarrow> Inl f
      | Inr (ok, c', w') \<Rightarrow>
          (case loading_calls refs rd picks c' w' of
             Inl f \<Rightarrow> Inl f
           | Inr (rs, c'', w'') \<Rightarrow>
               Inr ((ok, loadingSeriesChunksSetIterator_Err c') # rs, c'', w'')))"

text \<open>
  The loader has stopped: an error is latched, or its upstream has just returned false
  with no error.
\<close>

definition stopped ::
  "('u, seriesChunkRefsSet) iterator \<Rightarrow> ('u, 'r) loadingSeriesChunksSetIterator \<Rightarrow> bool" where
  "stopped refs c \<longleftrightarrow>
     err c \<noteq> None
   \<or> (\<exists>u0. it_Next refs u0 = (False, from_refs c) \<and> it_Err refs (from_refs c) = None)"

section \<open>Examples\<close>

text \<open>
  An upstream for the examples: its state counts the calls of \<open>Next\<close>; the first call
  yields a batch of two series, not releasable, and the second call ends the iteration.
\<close>

definition two_series :: seriesChunksSet where
  "two_series =
     \<lparr>series = Slice [\<lparr>lset = Labels 1 1, chks = nil_chunks\<rparr>,
                       \<lparr>lset = Labels 2 1, chks = nil_chunks\<rparr>] 2,
      seriesReleasable = False, seriesChunksPool = None, chunksReleaser = None\<rparr>"

definition one_batch :: "(nat, seriesChunksSet) iterator" where
  "one_batch =
     \<lparr>it_Next = (\<lambda>u. (u = 0, Suc u)), it_At = (\<lambda>u. two_series), it_Err = (\<lambda>u. None)\<rparr>"

definition empty_world :: world where
  "empty_world = \<lparr>seriesEntrySlicePool = [], trace = [], batches = 0, arrays = []\<rparr>"

definition example_cache :: "remoteCache MemcachedCache" where
  "example_cache =
     \<lparr>memcached = \<lparr>stored = [''a'' \<mapsto> [1, 2]], transport_fails = False\<rparr>,
      name = ''chunks'', requests = 10, hits = 4\<rparr>"

text \<open>
  Chunk readers for the examples: their state is the list of the slots registered;
  \<open>addLoad\<close> fails on block 0; \<open>load\<close> fills the raw chunk of every chunk in the memory
  with one byte.
  And an upstream of two reference batches, the second with a chunk of block 0.
\<close>

definition fill_chunk :: "AggrChunk \<Rightarrow> AggrChunk" where
  "fill_chunk m = m\<lparr>Raw := Some [170]\<rparr>"

fun backing :: "'a slice \<Rightarrow> 'a list" where
  "backing nil_slice = []"
| "backing (Slice b n) = b"

definition example_readers :: "(int \<times> int) list bucketChunkReaders" where
  "example_readers =
     \<lparr>cr_reset = (\<lambda>r. []),
      cr_addLoad = (\<lambda>r b rf i j. (if b = 0 then Some (Error ''no block'') else None, r @ [(i, j)])),
      cr_load = (\<lambda>r s rel mem. (None, r, backing s, map (map fill_chunk) mem))\<rparr>"

definition good_batch :: seriesChunkRefsSet where
  "good_batch =
     \<lparr>series_refs =
        [\<lparr>lset_refs = Labels 10 1,
          chunks = [\<lparr>blockID = 1, ref = 8, minTime = 0, maxTime = 100\<rparr>]\<rparr>,
         \<lparr>lset_refs = Labels 20 1, chunks = []\<rparr>],
      releasable_refs = True\<rparr>"

definition bad_batch :: seriesChunkRefsSet where
  "bad_batch =
     \<lparr>series_refs =
        [\<lparr>lset_refs = Labels 30 1,
          chunks = [\<lparr>blockID = 0, ref = 8, minTime = 5, maxTime = 6\<rparr>]\<rparr>],
      releasable_refs = True\<rparr>"

definition two_batches :: "(nat, seriesChunkRefsSet) iterator" where
  "two_batches =
     \<lparr>it_Next = (\<lambda>u. (u < 2, Suc u)),
      it_At = (\<lambda>u. if u = 1 then good_batch else bad_batch),
      it_Err = (\<lambda>u. None)\<rparr>"

definition loaded_good_batch :: seriesChunksSet where
  "loaded_good_batch =
     \<lparr>series =
        Slice [\<lparr>lset = Labels 10 1, chks = AggrChunks 0 1 1\<rparr>,
               \<lparr>lset = Labels 20 1, chks = AggrChunks 1 0 0\<rparr>] 2,
      seriesReleasable = True,
      seriesChunksPool = Some \<lparr>slabSize = 1000, carved = [1, 0]\<rparr>,
      chunksReleaser = Some (BatchBytes 0)\<rparr>"

text \<open>The world after the loader has published \<open>loaded_good_batch\<close>.\<close>

definition loaded_world :: world where
  "loaded_world =
     \<lparr>seriesEntrySlicePool = [], trace = [RefsSet_release good_batch], batches = 1,
      arrays = [[AggrChunk_zero\<lparr>MinTime := 0, MaxTime := 100, Raw := Some [170]\<rparr>], []]\<rparr>"

text \<open>An upstream of numbers that yields two values and then fails.\<close>

definition two_then_fail :: "(nat, nat) iterator" where
  "two_then_fail =
     \<lparr>it_Next = (\<lambda>u. (u < 2, Suc u)),
      it_At = (\<lambda>u. 10 * u),
      it_Err = (\<lambda>u. if 3 \<le> u then Some (Error ''fetch failed'') else None)\<rparr>"

text \<open>
  For the examples: an upstream of numbers that yields one value and then fails, and an
  upstream of reference batches that yields \<open>good_batch\<close> once and ends without error.
\<close>

definition failing_upstream :: "(nat, nat) iterator" where
  "failing_upstream =
     \<lparr>it_Next = (\<lambda>u. (u < 1, Suc u)),
      it_At = (\<lambda>u. u),
      it_Err = (\<lambda>u. if 2 \<le> u then Some (Error ''fetch failed'') else None)\<rparr>"

definition good_only :: "(nat, seriesChunkRefsSet) iterator" where
  "good_only =
     \<lparr>it_Next = (\<lambda>u. (u < 1, Suc u)), it_At = (\<lambda>u. good_batch), it_Err = (\<lambda>u. None)\<rparr>"

section \<open>Properties of the pooled chunk-set\<close>

lemma pool_Get_mem:
  "pool_Get p pick = (Some x, p') \<Longrightarrow> x \<in> set p \<and> set p' \<subseteq> set p"
  by (auto simp: pool_Get_def split: option.splits if_splits dest: in_set_takeD in_set_dropD)

lemma pool_Get_none:
  "pool_Get p pick = (None, p') \<Longrightarrow> p' = p"
  by (auto simp: pool_Get_def split: option.splits if_splits)

lemma pool_Get_subset:
  "pool_Get p pick = (r, p') \<Longrightarrow> set p' \<subseteq> set p"
  by (auto simp: pool_Get_def split: option.splits if_splits dest: in_set_takeD in_set_dropD)

text \<open>
  C5: over a pool as \<open>release\<close> leaves it, and whatever the pool hands out,
  \<open>newSeriesChunksSet\<close> returns for every capacity that \<open>make\<close> accepts (none below 0),
  and the set it returns has a series slice of length 0 and of capacity at least
  \<open>seriesCapacity\<close>. A set that is not releasable leaves the pool alone. A releasable
  one takes the slice out of the pool; when that slice is too small it is dropped (it is
  not in the pool afterwards) and the series slice is a new array of exactly
  \<open>seriesCapacity\<close> zero entries; when it is large enough it is the series slice.
\<close>

theorem newSeriesChunksSet_capacity:
  assumes pool: "pool_lengths_zero w"
  shows "(0 \<le> seriesCapacity \<longrightarrow>
           (\<exists>b w'. newSeriesChunksSet seriesCapacity releasable pick w = Inr (b, w')))
       \<and> (\<forall>b w'. newSeriesChunksSet seriesCapacity releasable pick w = Inr (b, w') \<longrightarrow>
             len (series b) = 0 \<and> seriesCapacity \<le> cap (series b)
           \<and> seriesReleasable b = releasable
           \<and> (\<not> releasable \<longrightarrow> w' = w)
           \<and> (\<forall>reused p'. releasable
                 \<and> pool_Get (seriesEntrySlicePool w) pick = (Some reused, p')
                 \<longrightarrow> seriesEntrySlicePool w' = p'
                   \<and> (cap reused < seriesCapacity
                        \<longrightarrow> series b = Slice (replicate (nat seriesCapacity) seriesEntry_zero) 0)
                   \<and> (seriesCapacity \<le> cap reused \<and> reused \<noteq> nil_slice
                        \<longrightarrow> series b = reused)))"
proof (cases "releasable")
  case False
  then show ?thesis
    by (auto simp add: newSeriesChunksSet_def make_slice_def split: if_splits)
next
  case True
  obtain r p' where g: "pool_Get (seriesEntrySlicePool w) pick = (r, p')"
    by (cases "pool_Get (seriesEntrySlicePool w) pick")
  show ?thesis
  proof (cases r)
    case None
    with True g show ?thesis
      by (auto simp add: newSeriesChunksSet_def make_slice_def split: if_splits)
  next
    case (Some reused)
    with g have "reused \<in> set (seriesEntrySlicePool w)"
      using pool_Get_mem by fastforce
    with pool have l0: "len reused = 0"
      by (simp add: pool_lengths_zero_def list_all_iff)
    show ?thesis
    proof (cases "cap reused < seriesCapacity \<or> reused = nil_slice")
      case True
      with \<open>releasable\<close> g Some show ?thesis
        by (auto simp add: newSeriesChunksSet_def make_slice_def split: if_splits)
    next
      case False
      with \<open>releasable\<close> g Some l0 show ?thesis
        by (auto simp add: newSeriesChunksSet_def make_slice_def)
    qed
  qed
qed

theorem newSeriesChunksSet_capacity_witness:
  "pool_lengths_zero
     \<lparr>seriesEntrySlicePool = [Slice [seriesEntry_zero] 0], trace = [], batches = 0, arrays = []\<rparr>
   \<and> (0::int) \<le> 3
   \<and> newSeriesChunksSet 3 True (Some 0)
        \<lparr>seriesEntrySlicePool = [Slice [seriesEntry_zero] 0], trace = [], batches = 0,
         arrays = []\<rparr>
      = Inr (\<lparr>series = Slice [seriesEntry_zero, seriesEntry_zero, seriesEntry_zero] 0,
              seriesReleasable = True, seriesChunksPool = None, chunksReleaser = None\<rparr>,
             \<lparr>seriesEntrySlicePool = [], trace = [], batches = 0, arrays = []\<rparr>)
   \<and> newSeriesChunksSet 1 True (Some 0)
        \<lparr>seriesEntrySlicePool = [Slice [seriesEntry_zero] 0], trace = [], batches = 0,
         arrays = []\<rparr>
      = Inr (\<lparr>series = Slice [seriesEntry_zero] 0,
              seriesReleasable = True, seriesChunksPool = None, chunksReleaser = None\<rparr>,
             \<lparr>seriesEntrySlicePool = [], trace = [], batches = 0, arrays = []\<rparr>)"
proof -
  let ?w = "\<lparr>seriesEntrySlicePool = [Slice [seriesEntry_zero] 0], trace = [], batches = 0,
             arrays = []\<rparr>"
  have p: "pool_lengths_zero ?w" by (simp add: pool_lengths_zero_def)
  from newSeriesChunksSet_capacity [OF p, of 3 True "Some 0"]
  have "\<exists>b w'. newSeriesChunksSet 3 True (Some 0) ?w = Inr (b, w')"
    by simp
  with p show ?thesis
    by (simp add: newSeriesChunksSet_def pool_Get_def make_slice_def numeral_3_eq_3)
qed

lemma fold_const_update:
  "fold (\<lambda>i b. b[i := z]) [0..<n] b = replicate (min n (length b)) z @ drop n b"
proof (induction n)
  case 0
  show ?case by simp
next
  case (Suc n)
  show ?case
  proof (cases "n < length b")
    case True
    then have "drop n b = b ! n # drop (Suc n) b"
      by (simp add: Cons_nth_drop_Suc)
    with True Suc show ?thesis
      by (simp add: list_update_append min_def replicate_app_Cons_same)
  next
    case False
    with Suc show ?thesis by (simp add: min_def list_update_beyond)
  qed
qed

text \<open>The inner loop of \<open>release\<close>: what it leaves in the memory.\<close>

lemma reset_chks_fold:
  "fold (\<lambda>c mem. store_chunk mem a c (Reset (mem ! a ! c))) [0..<n] mem
     = (if a < length mem then mem[a := fold (\<lambda>c b. b[c := AggrChunk_zero]) [0..<n] (mem ! a)]
        else mem)"
proof (induction n)
  case 0
  show ?case by simp
next
  case (Suc n)
  then show ?case by (simp add: store_chunk_def Reset_def)
qed

lemma reset_chks_closed:
  "reset_chks (AggrChunks a n cp) mem
     = (if a < length mem
        then mem[a := replicate (min n (length (mem ! a))) AggrChunk_zero @ drop n (mem ! a)]
        else mem)"
  by (simp add: reset_chks_fold fold_const_update)

lemma reset_chks_length: "length (reset_chks h mem) = length mem"
  by (cases h) (simp_all add: reset_chks_closed del: reset_chks.simps(2))

lemma reset_chks_array_length:
  "a < length mem \<Longrightarrow> length (reset_chks h mem ! a) = length (mem ! a)"
  by (cases h) (auto simp add: reset_chks_closed nth_list_update simp del: reset_chks.simps(2))

lemma reset_chks_nth:
  assumes "a < length mem" and "k < length (mem ! a)"
  shows "reset_chks h mem ! a ! k = (if chunk_of h a k then AggrChunk_zero else mem ! a ! k)"
proof (cases h)
  case nil_chunks
  then show ?thesis by simp
next
  case (AggrChunks a' n cp)
  show ?thesis
  proof (cases "a' = a")
    case False
    with AggrChunks assms show ?thesis
      by (simp add: reset_chks_closed nth_list_update del: reset_chks.simps(2))
  next
    case True
    show ?thesis
    proof (cases "k < n")
      case True
      with \<open>a' = a\<close> AggrChunks assms show ?thesis
        by (simp add: reset_chks_closed nth_append del: reset_chks.simps(2))
    next
      case False
      with assms have "min n (length (mem ! a)) = n" by simp
      with False \<open>a' = a\<close> AggrChunks assms show ?thesis
        by (simp add: reset_chks_closed nth_append del: reset_chks.simps(2))
    qed
  qed
qed

text \<open>The outer loop: the entries are overwritten, the chunks of each entry reset in turn.\<close>

lemma reset_series_fold:
  assumes "m \<le> length b"
  shows "fold (\<lambda>i (b, mem). (b[i := seriesEntry_zero], reset_chks (chks (b ! i)) mem))
           [0..<m] (b, mem)
         = (replicate m seriesEntry_zero @ drop m b,
            fold (\<lambda>e. reset_chks (chks e)) (take m b) mem)"
  using assms
proof (induction m)
  case 0
  show ?case by simp
next
  case (Suc m)
  then have m: "m < length b" by simp
  then have d: "drop m b = b ! m # drop (Suc m) b"
    by (simp add: Cons_nth_drop_Suc)
  from m have t: "take (Suc m) b = take m b @ [b ! m]"
    by (simp add: take_Suc_conv_app_nth)
  from Suc m show ?case
    by (simp add: d t list_update_append nth_append replicate_app_Cons_same
          del: reset_chks.simps(2))
qed

lemma reset_series_closed:
  "reset_series s mem
     = (with_backing s (replicate (length (elems s)) seriesEntry_zero
                          @ drop (length (elems s)) (backing s)),
        fold (\<lambda>e. reset_chks (chks e)) (elems s) mem)"
proof (cases s)
  case nil_slice
  then show ?thesis by simp
next
  case (Slice b n)
  have "min n (length b) \<le> length b" by simp
  from reset_series_fold [OF this, of mem] Slice show ?thesis
    by (simp add: min_def)
qed




lemma chunk_of_entries_Cons:
  "chunk_of_entries (e # es) a k \<longleftrightarrow> chunk_of (chks e) a k \<or> chunk_of_entries es a k"
  by (simp add: chunk_of_entries_def)

lemma reset_entries_length:
  "length (fold (\<lambda>e. reset_chks (chks e)) (es :: seriesEntry list) mem) = length mem"
  by (induction es arbitrary: mem) (simp_all add: reset_chks_length del: reset_chks.simps(2))

lemma reset_entries_array_length:
  "a < length mem \<Longrightarrow>
   length (fold (\<lambda>e. reset_chks (chks e)) (es :: seriesEntry list) mem ! a)
     = length (mem ! a)"
  by (induction es arbitrary: mem)
     (simp_all add: reset_chks_length reset_chks_array_length del: reset_chks.simps(2))

lemma reset_entries_nth:
  assumes "a < length mem" and "k < length (mem ! a)"
  shows "fold (\<lambda>e. reset_chks (chks e)) es mem ! a ! k
           = (if chunk_of_entries es a k then AggrChunk_zero else mem ! a ! k)"
  using assms
proof (induction es arbitrary: mem)
  case Nil
  show ?case by (simp add: chunk_of_entries_def)
next
  case (Cons e es)
  let ?m1 = "reset_chks (chks e) mem"
  from Cons.prems have a1: "a < length ?m1" and k1: "k < length (?m1 ! a)"
    by (simp_all add: reset_chks_length reset_chks_array_length)
  from Cons.IH [OF a1 k1] reset_chks_nth [OF Cons.prems, of "chks e"]
  show ?case
    by (simp add: chunk_of_entries_Cons del: reset_chks.simps(2))
qed

lemma reset_entries_chunks:
  assumes "e \<in> set (es :: seriesEntry list)"
  shows "elems_chunks (fold (\<lambda>e. reset_chks (chks e)) es mem) (chks e)
           = replicate (length (elems_chunks mem (chks e))) AggrChunk_zero"
proof (cases "chks e")
  case nil_chunks
  then show ?thesis by simp
next
  case (AggrChunks a n cp)
  let ?mem' = "fold (\<lambda>e. reset_chks (chks e)) es mem"
  show ?thesis
  proof (cases "a < length mem")
    case False
    with AggrChunks show ?thesis by (simp add: reset_entries_length)
  next
    case True
    have "take n (?mem' ! a) = replicate (min n (length (mem ! a))) AggrChunk_zero"
    proof (rule nth_equalityI)
      show "length (take n (?mem' ! a))
              = length (replicate (min n (length (mem ! a))) AggrChunk_zero)"
        using True by (simp add: reset_entries_array_length min.commute)
    next
      fix k assume "k < length (take n (?mem' ! a))"
      with True have k: "k < n" "k < length (mem ! a)"
        by (simp_all add: reset_entries_array_length)
      with AggrChunks have "chunk_of (chks e) a k" by simp
      with assms have "chunk_of_entries es a k"
        unfolding chunk_of_entries_def list_ex_iff by blast
      with k True show "take n (?mem' ! a) ! k
              = replicate (min n (length (mem ! a))) AggrChunk_zero ! k"
        by (simp add: reset_entries_nth)
    qed
    with True AggrChunks show ?thesis
      by (simp add: reset_entries_length min.commute)
  qed
qed

lemma len_truncate0: "len (truncate0 s) = 0"
  by (cases s) simp_all


lemma slice_to_0: "slice_to s 0 = Inr (truncate0 s)"
  by (cases s) simp_all

lemma release_releasable:
  assumes "seriesReleasable b"
  shows "release b w =
     (b\<lparr>series := fst (reset_series (series b) (arrays w))\<rparr>,
      w\<lparr>arrays := snd (reset_series (series b) (arrays w)),
        seriesEntrySlicePool := seriesEntrySlicePool w
          @ [truncate0 (fst (reset_series (series b) (arrays w)))],
        trace := trace w
          @ released_events b (snd (reset_series (series b) (arrays w)))
              (truncate0 (fst (reset_series (series b) (arrays w))))\<rparr>)"
  using assms
  by (cases "reset_series (series b) (arrays w)")
     (simp add: release_def released_events_def Let_def pool_Put_def split: option.splits)

lemma release_not_releasable:
  assumes "\<not> seriesReleasable b"
  shows "release b w = (b, w\<lparr>trace := trace w @ released_events b mem s\<rparr>)"
  using assms
  by (simp add: release_def released_events_def Let_def split: option.splits)

lemma release_keeps_pool_lengths_zero:
  "pool_lengths_zero w \<Longrightarrow> pool_lengths_zero (snd (release b w))"
  by (cases "seriesReleasable b")
     (simp_all add: release_releasable release_not_releasable [where s = nil_slice and mem = "[]"]
        pool_lengths_zero_def len_truncate0)



text \<open>
  C6: for a size that \<open>make\<close> accepts, \<open>newSeriesAggrChunkSlice\<close> returns a slice of
  length and capacity exactly the size, whose chunks are zero chunks in an array that
  was not there before; the arrays that were there are left as they are. For a set that
  is not releasable the slice is a new array of zero chunks and the set is left as it is,
  its slab pool included. For a releasable set the slice is what \<open>Get\<close> of the set's slab
  pool returns, and the set holds that pool afterwards: a pool of slab size 1000 created
  by this call when the set had none, the pool the set had otherwise.
\<close>

theorem newSeriesAggrChunkSlice_exact:
  assumes "0 \<le> n"
  shows "\<exists>s b' mem'. newSeriesAggrChunkSlice b n mem = Inr (s, b', mem')
           \<and> len_chunks s = n \<and> cap_chunks s = n
           \<and> elems_chunks mem' s = replicate (nat n) AggrChunk_zero
           \<and> s = AggrChunks (length mem) (nat n) (nat n)
           \<and> mem' = mem @ [replicate (nat n) AggrChunk_zero]
           \<and> (\<not> seriesReleasable b \<longrightarrow>
                 b' = b \<and> Inr (s, mem') = make_chunks n mem)
           \<and> (seriesReleasable b \<longrightarrow>
                 (\<exists>p'. b' = b\<lparr>seriesChunksPool := Some p'\<rparr>
                    \<and> (seriesChunksPool b = None \<longrightarrow>
                          (s, p', mem') = SlabPool_Get (NewSlabPool seriesChunksSlabSize) n mem
                        \<and> slabSize p' = 1000 \<and> carved p' = [n])
                    \<and> (\<forall>p. seriesChunksPool b = Some p \<longrightarrow>
                          (s, p', mem') = SlabPool_Get p n mem
                        \<and> slabSize p' = slabSize p \<and> carved p' = carved p @ [n])))"
proof (cases "seriesReleasable b")
  case False
  with assms show ?thesis
    by (simp add: newSeriesAggrChunkSlice_def make_chunks_def)
next
  case True
  with assms show ?thesis
    by (cases "seriesChunksPool b")
       (simp_all add: newSeriesAggrChunkSlice_def SlabPool_Get_def NewSlabPool_def
          seriesChunksSlabSize_def)
qed

theorem newSeriesAggrChunkSlice_exact_witness:
  "(0::int) \<le> 2
   \<and> newSeriesAggrChunkSlice
        \<lparr>series = nil_slice, seriesReleasable = True, seriesChunksPool = None,
         chunksReleaser = None\<rparr> 2 [[AggrChunk_zero\<lparr>MinTime := 5\<rparr>]]
     = Inr (AggrChunks 1 2 2,
            \<lparr>series = nil_slice, seriesReleasable = True,
             seriesChunksPool = Some \<lparr>slabSize = 1000, carved = [2]\<rparr>,
             chunksReleaser = None\<rparr>,
            [[AggrChunk_zero\<lparr>MinTime := 5\<rparr>], [AggrChunk_zero, AggrChunk_zero]])
   \<and> newSeriesAggrChunkSlice
        \<lparr>series = nil_slice, seriesReleasable = False, seriesChunksPool = None,
         chunksReleaser = None\<rparr> 2 [[AggrChunk_zero\<lparr>MinTime := 5\<rparr>]]
     = Inr (AggrChunks 1 2 2,
            \<lparr>series = nil_slice, seriesReleasable = False, seriesChunksPool = None,
             chunksReleaser = None\<rparr>,
            [[AggrChunk_zero\<lparr>MinTime := 5\<rparr>], [AggrChunk_zero, AggrChunk_zero]])"
  using newSeriesAggrChunkSlice_exact
    [of 2 "\<lparr>series = nil_slice, seriesReleasable = True, seriesChunksPool = None,
         chunksReleaser = None\<rparr>" "[[AggrChunk_zero\<lparr>MinTime := 5\<rparr>]]"]
  by (simp add: newSeriesAggrChunkSlice_def SlabPool_Get_def NewSlabPool_def
        seriesChunksSlabSize_def make_chunks_def numeral_2_eq_2)

section \<open>Properties of the series adapter\<close>

lemma int_wrap_in_range:
  "- (2 ^ 63) \<le> x \<Longrightarrow> x < 2 ^ 63 - 1 \<Longrightarrow> int_wrap (x + 1) = x + 1"
  by (simp add: int_wrap_def)

lemma len_nonneg: "0 \<le> len s"
  by (cases s) simp_all

text \<open>
  C3: \<open>Next\<close> of the series adapter. The new offset \<open>i\<close> is the old one plus one (Go's
  \<open>++\<close>, which is the successor below the largest \<open>int\<close>). While \<open>i\<close> is inside the current
  batch, \<open>Next\<close> returns true and changes the offset only: nothing is released. Otherwise
  the current batch is released, once, and the upstream is advanced; when the upstream
  returns false the current batch becomes the zero set and \<open>Next\<close> returns false, else
  the batch of the upstream becomes the current one, the offset 0, and \<open>Next\<close> returns
  true.
\<close>

theorem seriesChunksSeriesSet_Next_steps:
  "\<exists>ok b' w'. seriesChunksSeriesSet_Next ops b w = (ok, b', w')
     \<and> (- (2 ^ 63) \<le> currOffset b \<and> currOffset b < 2 ^ 63 - 1
          \<longrightarrow> int_wrap (currOffset b + 1) = currOffset b + 1)
     \<and> (int_wrap (currOffset b + 1) < len (series (currSet b))
          \<longrightarrow> ok \<and> b' = b\<lparr>currOffset := int_wrap (currOffset b + 1)\<rparr> \<and> w' = w)
     \<and> (len (series (currSet b)) \<le> int_wrap (currOffset b + 1)
          \<longrightarrow> w' = snd (release (currSet b) w)
            \<and> trace w' = trace w @ released_events (currSet b) (arrays w')
                  (truncate0 (fst (reset_series (series (currSet b)) (arrays w))))
            \<and> from_iter b' = snd (it_Next ops (from_iter b))
            \<and> (\<not> fst (it_Next ops (from_iter b))
                  \<longrightarrow> \<not> ok \<and> currSet b' = seriesChunksSet_zero
                    \<and> currOffset b' = int_wrap (currOffset b + 1))
            \<and> (fst (it_Next ops (from_iter b))
                  \<longrightarrow> ok \<and> currSet b' = it_At ops (from_iter b') \<and> currOffset b' = 0))"
proof -
  have tr: "trace (snd (release (currSet b) w))
              = trace w @ released_events (currSet b) (arrays (snd (release (currSet b) w)))
                  (truncate0 (fst (reset_series (series (currSet b)) (arrays w))))"
    by (cases "seriesReleasable (currSet b)")
       (simp_all add: release_releasable
          release_not_releasable
            [where s = "truncate0 (fst (reset_series (series (currSet b)) (arrays w)))"
               and mem = "arrays w"])
  show ?thesis
    using tr
    by (cases "it_Next ops (from_iter b)"; cases "release (currSet b) w")
       (auto simp add: seriesChunksSeriesSet_Next_def Let_def int_wrap_in_range)
qed

lemma At_guard:
  "len (series (currSet b)) \<le> currOffset b \<Longrightarrow> seriesChunksSeriesSet_At b = Inr (nil_labels, nil_chunks)"
  by (simp add: seriesChunksSeriesSet_At_def)

lemma At_in_range:
  assumes "0 \<le> currOffset b" and "wf_slice (series (currSet b))"
  shows "\<exists>r. seriesChunksSeriesSet_At b = Inr r"
  using assms
  by (cases "series (currSet b)")
     (auto simp add: seriesChunksSeriesSet_At_def split: sum.splits)

lemma Next_keeps_offset_bounds:
  assumes "seriesChunksSeriesSet_Next ops b w = (ok, b', w')"
    and "0 \<le> currOffset b" and "currOffset b \<le> int k" and "int k < 2 ^ 63 - 1"
    and "wf_slice (series (currSet b))"
    and "\<forall>u. wf_slice (series (it_At ops u))"
  shows "0 \<le> currOffset b' \<and> currOffset b' \<le> int (Suc k) \<and> wf_slice (series (currSet b'))"
proof -
  from assms have "int_wrap (currOffset b + 1) = currOffset b + 1"
    by (intro int_wrap_in_range) auto
  with assms show ?thesis
    by (cases "it_Next ops (from_iter b)"; cases "release (currSet b) w")
       (auto simp add: seriesChunksSeriesSet_Next_def Let_def seriesChunksSet_zero_def
          split: if_splits)
qed

lemma nexts_keeps_offset_bounds:
  assumes "nexts ops n b w = (b', w')"
    and "0 \<le> currOffset b" and "currOffset b \<le> int k" and "int (k + n) < 2 ^ 63"
    and "wf_slice (series (currSet b))"
    and "\<forall>u. wf_slice (series (it_At ops u))"
  shows "0 \<le> currOffset b' \<and> currOffset b' \<le> int (k + n) \<and> wf_slice (series (currSet b'))"
  using assms
proof (induction n arbitrary: b w k)
  case 0
  then show ?case by simp
next
  case (Suc n)
  obtain ok b1 w1 where st: "seriesChunksSeriesSet_Next ops b w = (ok, b1, w1)"
    by (cases "seriesChunksSeriesSet_Next ops b w")
  from Suc.prems have k: "int k < 2 ^ 63 - 1" by simp
  from Next_keeps_offset_bounds [OF st Suc.prems(2) Suc.prems(3) k Suc.prems(5) Suc.prems(6)]
  have b1: "0 \<le> currOffset b1" "currOffset b1 \<le> int (Suc k)" "wf_slice (series (currSet b1))"
    by auto
  from Suc.prems(1) st have run: "nexts ops n b1 w1 = (b', w')" by simp
  from Suc.prems(4) have "int (Suc k + n) < 2 ^ 63" by simp
  from Suc.IH [OF run b1(1) b1(2) this b1(3) Suc.prems(6)]
  show ?case by simp
qed

text \<open>
  C10: \<open>At\<close> returns \<open>(nil, nil)\<close> whenever the offset is at or beyond the length of the
  current batch, and so it does on a new adapter, after a \<open>Next\<close> that returned false,
  and on an empty batch at offset 0. After any number of calls of \<open>Next\<close> on a new adapter
  (fewer than \<open>2^63\<close>, the calls it takes for the offset to wrap around), over an upstream
  whose batches are slices, \<open>At\<close> does not panic.
\<close>

theorem At_never_out_of_range:
  "(len (series (currSet b)) \<le> currOffset b
      \<longrightarrow> seriesChunksSeriesSet_At b = Inr (nil_labels, nil_chunks))
   \<and> seriesChunksSeriesSet_At (newSeriesChunksSeriesSet u) = Inr (nil_labels, nil_chunks)
   \<and> (\<not> fst (seriesChunksSeriesSet_Next ops b w)
      \<longrightarrow> seriesChunksSeriesSet_At (fst (snd (seriesChunksSeriesSet_Next ops b w)))
            = Inr (nil_labels, nil_chunks))
   \<and> (len (series (currSet b)) = 0 \<and> currOffset b = 0
      \<longrightarrow> seriesChunksSeriesSet_At b = Inr (nil_labels, nil_chunks))
   \<and> ((\<forall>u. wf_slice (series (it_At ops u))) \<and> int n < 2 ^ 63
      \<longrightarrow> (\<exists>r. seriesChunksSeriesSet_At (fst (nexts ops n (newSeriesChunksSeriesSet u) w)) = Inr r))"
proof -
  have after_false: "\<not> fst (seriesChunksSeriesSet_Next ops b w)
      \<Longrightarrow> seriesChunksSeriesSet_At (fst (snd (seriesChunksSeriesSet_Next ops b w)))
            = Inr (nil_labels, nil_chunks)"
    using len_nonneg [of "series (currSet b)"]
    by (cases "it_Next ops (from_iter b)"; cases "release (currSet b) w")
       (auto simp add: seriesChunksSeriesSet_Next_def Let_def seriesChunksSet_zero_def
          seriesChunksSeriesSet_At_def split: if_splits)
  have reach: "\<exists>r. seriesChunksSeriesSet_At (fst (nexts ops n (newSeriesChunksSeriesSet u) w)) = Inr r"
    if wf: "\<forall>u. wf_slice (series (it_At ops u))" and n: "int n < 2 ^ 63"
  proof -
    obtain b' w' where run: "nexts ops n (newSeriesChunksSeriesSet u) w = (b', w')"
      by (cases "nexts ops n (newSeriesChunksSeriesSet u) w")
    have "0 \<le> currOffset b' \<and> currOffset b' \<le> int (0 + n) \<and> wf_slice (series (currSet b'))"
      by (rule nexts_keeps_offset_bounds [OF run _ _ _ _ wf])
         (use n in \<open>simp_all add: newSeriesChunksSeriesSet_def seriesChunksSet_zero_def\<close>)
    with run show ?thesis
      using At_in_range [of b'] by simp
  qed
  show ?thesis
    using after_false reach
    by (simp add: At_guard newSeriesChunksSeriesSet_def seriesChunksSet_zero_def)
qed

theorem seriesChunksSeriesSet_Next_steps_witness:
  "seriesChunksSeriesSet_Next one_batch (newSeriesChunksSeriesSet 0) empty_world
     = (True, \<lparr>from_iter = 1, currSet = two_series, currOffset = 0\<rparr>, empty_world)
   \<and> seriesChunksSeriesSet_Next one_batch
        \<lparr>from_iter = 1, currSet = two_series, currOffset = 0\<rparr> empty_world
     = (True, \<lparr>from_iter = 1, currSet = two_series, currOffset = 1\<rparr>, empty_world)
   \<and> seriesChunksSeriesSet_Next one_batch
        \<lparr>from_iter = 1, currSet = two_series, currOffset = 1\<rparr> empty_world
     = (False, \<lparr>from_iter = 2, currSet = seriesChunksSet_zero, currOffset = 2\<rparr>, empty_world)"
  using seriesChunksSeriesSet_Next_steps [of one_batch "newSeriesChunksSeriesSet 0" empty_world]
    seriesChunksSeriesSet_Next_steps
      [of one_batch "\<lparr>from_iter = 1, currSet = two_series, currOffset = 0\<rparr>" empty_world]
    seriesChunksSeriesSet_Next_steps
      [of one_batch "\<lparr>from_iter = 1, currSet = two_series, currOffset = 1\<rparr>" empty_world]
  by (simp add: seriesChunksSeriesSet_Next_def newSeriesChunksSeriesSet_def one_batch_def
        two_series_def empty_world_def seriesChunksSet_zero_def release_def int_wrap_def Let_def)

theorem At_never_out_of_range_witness:
  "(\<forall>u. wf_slice (series (it_At one_batch u))) \<and> int 2 < 2 ^ 63
   \<and> seriesChunksSeriesSet_At (fst (nexts one_batch 2 (newSeriesChunksSeriesSet 0) empty_world))
       = Inr (Labels 2 1, nil_chunks)
   \<and> seriesChunksSeriesSet_At (fst (nexts one_batch 3 (newSeriesChunksSeriesSet 0) empty_world))
       = Inr (nil_labels, nil_chunks)"
  using At_never_out_of_range [of "newSeriesChunksSeriesSet (0::nat)" 0 one_batch empty_world 2]
  by (simp add: seriesChunksSeriesSet_Next_def newSeriesChunksSeriesSet_def one_batch_def
        two_series_def empty_world_def seriesChunksSet_zero_def release_def int_wrap_def Let_def
        seriesChunksSeriesSet_At_def numeral_2_eq_2 numeral_3_eq_3)

section \<open>Properties of the cache adapter\<close>

text \<open>
  C8: for every client, \<open>Fetch\<close> adds the number of keys to the requests counter and the
  number of entries of the map it returns to the hits counter, and it returns the map of
  the client as it is; a map is all it returns. With the client of the spec, every entry
  of the returned map is a requested key with the value the cache stores for it (and
  without a transport error every such key is there), and when the transport fails the
  map is empty and the hits counter stays.
\<close>

theorem Fetch_counters:
  "(\<exists>results c'. Fetch getMulti c keys = (results, c')
       \<and> requests c' = requests c + length keys
       \<and> hits c' = hits c + card (dom results)
       \<and> results = fst (getMulti (memcached c) keys)
       \<and> memcached c' = snd (getMulti (memcached c) keys)
       \<and> name c' = name c)
 \<and> requests (snd (Fetch GetMulti m keys)) = requests m + length keys
 \<and> hits (snd (Fetch GetMulti m keys)) = hits m + card (dom (fst (Fetch GetMulti m keys)))
 \<and> (\<forall>k v. fst (Fetch GetMulti m keys) k = Some v
        \<longrightarrow> k \<in> set keys \<and> stored (memcached m) k = Some v)
 \<and> (\<forall>k v. \<not> transport_fails (memcached m) \<and> k \<in> set keys \<and> stored (memcached m) k = Some v
        \<longrightarrow> fst (Fetch GetMulti m keys) k = Some v)
 \<and> (transport_fails (memcached m)
        \<longrightarrow> fst (Fetch GetMulti m keys) = Map.empty
          \<and> hits (snd (Fetch GetMulti m keys)) = hits m)"
proof -
  have 1: "\<exists>results c'. Fetch getMulti c keys = (results, c')
       \<and> requests c' = requests c + length keys
       \<and> hits c' = hits c + card (dom results)
       \<and> results = fst (getMulti (memcached c) keys)
       \<and> memcached c' = snd (getMulti (memcached c) keys)
       \<and> name c' = name c"
    by (cases "getMulti (memcached c) keys") (simp add: Fetch_def Let_def)
  have 2: "Fetch GetMulti m keys
             = (fst (GetMulti (memcached m) keys),
                m\<lparr>requests := requests m + length keys,
                  memcached := snd (GetMulti (memcached m) keys),
                  hits := hits m + card (dom (fst (GetMulti (memcached m) keys)))\<rparr>)"
    by (cases "GetMulti (memcached m) keys") (simp add: Fetch_def Let_def)
  show ?thesis
    using 1 by (auto simp add: 2 GetMulti_def restrict_map_def split: if_splits)
qed

lemma restrict_singleton:
  "[k \<mapsto> v] |` A = (if k \<in> A then [k \<mapsto> v] else Map.empty)"
  by (rule ext) (simp add: restrict_map_def)

theorem Fetch_counters_witness:
  "requests (snd (Fetch GetMulti example_cache [''a'', ''b''])) = 12
   \<and> hits (snd (Fetch GetMulti example_cache [''a'', ''b''])) = 5
   \<and> fst (Fetch GetMulti example_cache [''a'', ''b'']) = [''a'' \<mapsto> [1, 2]]
   \<and> transport_fails
        (memcached (example_cache\<lparr>memcached := \<lparr>stored = [''a'' \<mapsto> [1, 2]],
                                                 transport_fails = True\<rparr>\<rparr>))
   \<and> fst (Fetch GetMulti
            (example_cache\<lparr>memcached := \<lparr>stored = [''a'' \<mapsto> [1, 2]],
                                           transport_fails = True\<rparr>\<rparr>)
            [''a'', ''b'']) = Map.empty
   \<and> hits (snd (Fetch GetMulti
            (example_cache\<lparr>memcached := \<lparr>stored = [''a'' \<mapsto> [1, 2]],
                                           transport_fails = True\<rparr>\<rparr>)
            [''a'', ''b''])) = 4"
proof -
  let ?failing = "example_cache\<lparr>memcached := \<lparr>stored = [''a'' \<mapsto> [1, 2]],
                                              transport_fails = True\<rparr>\<rparr>"
  have g: "fst (GetMulti (memcached example_cache) [''a'', ''b'']) = [''a'' \<mapsto> [1, 2]]"
    by (simp add: GetMulti_def example_cache_def restrict_singleton)
  note t = Fetch_counters [of GetMulti example_cache "[''a'', ''b'']" ?failing]
  from t have "\<exists>results c'. Fetch GetMulti example_cache [''a'', ''b''] = (results, c')
       \<and> requests c' = requests example_cache + length [''a'', ''b'']
       \<and> hits c' = hits example_cache + card (dom results)
       \<and> results = fst (GetMulti (memcached example_cache) [''a'', ''b''])
       \<and> memcached c' = snd (GetMulti (memcached example_cache) [''a'', ''b''])
       \<and> name c' = name example_cache"
    by (rule conjunct1)
  then obtain results c' where f: "Fetch GetMulti example_cache [''a'', ''b''] = (results, c')"
    and rq: "requests c' = requests example_cache + length [''a'', ''b'']"
    and ht: "hits c' = hits example_cache + card (dom results)"
    and rs: "results = fst (GetMulti (memcached example_cache) [''a'', ''b''])"
    by blast
  from rs g have "results = [''a'' \<mapsto> [1, 2]]" by simp
  with f rq ht have ok: "requests (snd (Fetch GetMulti example_cache [''a'', ''b''])) = 12"
    "hits (snd (Fetch GetMulti example_cache [''a'', ''b''])) = 5"
    "fst (Fetch GetMulti example_cache [''a'', ''b'']) = [''a'' \<mapsto> [1, 2]]"
    by (simp_all add: example_cache_def)
  have tf: "transport_fails (memcached ?failing)" by simp
  from t have "transport_fails (memcached ?failing)
        \<longrightarrow> fst (Fetch GetMulti ?failing [''a'', ''b'']) = Map.empty
          \<and> hits (snd (Fetch GetMulti ?failing [''a'', ''b''])) = hits ?failing"
    by (rule conjunct2 [OF conjunct2 [OF conjunct2 [OF conjunct2 [OF conjunct2]]]])
  with tf have "fst (Fetch GetMulti ?failing [''a'', ''b'']) = Map.empty"
    "hits (snd (Fetch GetMulti ?failing [''a'', ''b''])) = 4"
    by (simp_all add: example_cache_def)
  with ok tf show ?thesis by (intro conjI)
qed

section \<open>Properties of the preloading iterator\<close>

lemma preload_inv_new:
  "newPreloadingSetIterator zero d n u = Inr p \<Longrightarrow> preload_inv p"
  by (auto simp add: newPreloadingSetIterator_def preload_inv_def split: if_splits)

lemma all_none_append:
  assumes "list_all (\<lambda>x. err_pre x = None) (butlast xs)"
    and "xs \<noteq> [] \<longrightarrow> err_pre (last xs) = None"
  shows "list_all (\<lambda>x. err_pre x = None) xs"
proof (cases xs rule: rev_cases)
  case Nil
  then show ?thesis by simp
next
  case (snoc ys y)
  with assms show ?thesis by simp
qed

lemma preload_invD:
  assumes "preload_inv p"
  shows "length (preloaded p) \<le> preloaded_cap p"
    and "preloaded_closed p \<longleftrightarrow> preload_pc p = Returned"
    and "preload_pc p = AtSelect x \<Longrightarrow> err_pre x = None"
    and "preload_pc p = AtFinalSend x \<Longrightarrow> err_pre x \<noteq> None"
    and "list_all (\<lambda>x. err_pre x = None) (butlast (preloaded p))"
    and "preloaded p \<noteq> [] \<Longrightarrow> preload_pc p \<noteq> Returned \<Longrightarrow> err_pre (last (preloaded p)) = None"
  using assms by (auto simp add: preload_inv_def)

lemma preload_inv_step:
  assumes inv: "preload_inv p" and st: "preload_step ops zero d p = Some p'"
  shows "preload_inv p'"
proof (cases "preload_pc p")
  case AtLoopHead
  obtain ok u' where nx: "it_Next ops (from_pre p) = (ok, u')"
    by (cases "it_Next ops (from_pre p)")
  note d = preload_invD [OF inv]
  from d(2) AtLoopHead have nc: "\<not> preloaded_closed p" by simp
  from d(6) AtLoopHead have lastok: "preloaded p \<noteq> [] \<longrightarrow> err_pre (last (preloaded p)) = None"
    by simp
  show ?thesis
  proof (cases ok)
    case True
    with st AtLoopHead nx
    have "p' = p\<lparr>from_pre := u', preload_pc := AtSelect \<lparr>set_pre = it_At ops u', err_pre = None\<rparr>\<rparr>"
      by (simp add: preload_step_def)
    with d(1) d(5) nc lastok show ?thesis by (auto simp add: preload_inv_def)
  next
    case False
    show ?thesis
    proof (cases "it_Err ops u'")
      case None
      with False st AtLoopHead nx
      have "p' = p\<lparr>from_pre := u', preload_pc := Returned, preloaded_closed := True\<rparr>"
        by (simp add: preload_step_def)
      with d(1) d(5) show ?thesis by (simp add: preload_inv_def)
    next
      case (Some e)
      with False st AtLoopHead nx
      have "p' = p\<lparr>from_pre := u',
                   preload_pc := AtFinalSend \<lparr>set_pre = zero, err_pre = Some e\<rparr>\<rparr>"
        by (simp add: preload_step_def)
      with d(1) d(5) nc lastok show ?thesis by (auto simp add: preload_inv_def)
    qed
  qed
next
  case (AtSelect x)
  note d = preload_invD [OF inv]
  from d(6) AtSelect have "preloaded p \<noteq> [] \<longrightarrow> err_pre (last (preloaded p)) = None"
    by simp
  with d(5) have allok: "list_all (\<lambda>x. err_pre x = None) (preloaded p)"
    by (rule all_none_append)
  from d(3) AtSelect have x: "err_pre x = None" by simp
  show ?thesis
  proof (cases d)
    case True
    with st AtSelect have "p' = p\<lparr>preload_pc := Returned, preloaded_closed := True\<rparr>"
      by (simp add: preload_step_def split: if_splits)
    with d(1) d(5) show ?thesis by (simp add: preload_inv_def)
  next
    case False
    with st AtSelect have room: "length (preloaded p) < preloaded_cap p"
      and "p' = p\<lparr>preloaded := preloaded p @ [x], preload_pc := AtLoopHead\<rparr>"
      by (simp_all add: preload_step_def split: if_splits)
    with d(2) AtSelect allok x show ?thesis by (simp add: preload_inv_def)
  qed
next
  case (AtFinalSend x)
  note d = preload_invD [OF inv]
  from d(6) AtFinalSend have "preloaded p \<noteq> [] \<longrightarrow> err_pre (last (preloaded p)) = None"
    by simp
  with d(5) have allok: "list_all (\<lambda>x. err_pre x = None) (preloaded p)"
    by (rule all_none_append)
  from st AtFinalSend have room: "length (preloaded p) < preloaded_cap p"
    and "p' = p\<lparr>preloaded := preloaded p @ [x], preload_pc := Returned,
                 preloaded_closed := True\<rparr>"
    by (simp_all add: preload_step_def split: if_splits)
  with allok show ?thesis by (simp add: preload_inv_def)
next
  case Returned
  with st show ?thesis by (simp add: preload_step_def)
qed

lemma preload_inv_cancel: "preload_inv p \<Longrightarrow> preload_inv (p\<lparr>ctx_done := True\<rparr>)"
  by (simp add: preload_inv_def)

lemma butlast_tail_all:
  assumes "list_all P (butlast (x # rest))"
  shows "list_all P (butlast rest)"
  using assms by (cases rest) simp_all

lemma preload_inv_receive:
  assumes "preload_inv p" and "receive p = Some (r, p')"
  shows "preload_inv p'"
proof (cases "preloaded p")
  case Nil
  with assms show ?thesis
    by (cases "preload_pc p") (auto simp add: receive_def preload_inv_def split: if_splits)
next
  case (Cons x rest)
  with assms have p': "p' = p\<lparr>preloaded := rest\<rparr>" by (simp add: receive_def)
  from assms(1) Cons have "list_all (\<lambda>x. err_pre x = None) (butlast rest)"
    using butlast_tail_all [of "\<lambda>x. err_pre x = None" x rest] by (simp add: preload_inv_def)
  with assms(1) Cons p' show ?thesis
    by (auto simp add: preload_inv_def split: preload_pc.splits)
qed

lemma preload_inv_Next:
  assumes "preload_inv p" and "preloadingSetIterator_Next p = Some (ok, p')"
  shows "preload_inv p'"
proof -
  from assms(2) obtain r q where rc: "receive p = Some (r, q)"
    by (auto simp add: preloadingSetIterator_Next_def split: option.splits)
  from preload_inv_receive [OF assms(1) rc] have "preload_inv q" .
  with assms(2) rc show ?thesis
    by (cases r) (auto simp add: preloadingSetIterator_Next_def preload_inv_def Let_def)
qed

lemma Next_false_drained:
  assumes "preload_inv p" and "preloadingSetIterator_Next p = Some (False, p')"
  shows "drained p'"
proof (cases "preloaded p")
  case Nil
  with assms show ?thesis
    by (cases "preload_pc p")
       (auto simp add: preloadingSetIterator_Next_def receive_def preload_inv_def drained_def
          Let_def split: if_splits)
next
  case (Cons x rest)
  with assms(2) have e: "err_pre x \<noteq> None" and p': "preloaded p' = rest"
      "preload_pc p' = preload_pc p" "preloaded_closed p' = preloaded_closed p"
    by (auto simp add: preloadingSetIterator_Next_def receive_def Let_def)
  have "rest = []"
  proof (rule ccontr)
    assume "rest \<noteq> []"
    then have "x \<in> set (butlast (x # rest))" by simp
    with assms(1) Cons have "err_pre x = None"
      by (auto simp add: preload_inv_def list_all_iff simp del: butlast.simps)
    with e show False by simp
  qed
  with assms(1) Cons e p' show ?thesis
    by (auto simp add: preload_inv_def drained_def)
qed

lemma drained_Next: "drained p \<Longrightarrow> preloadingSetIterator_Next p = Some (False, p)"
  by (simp add: drained_def preloadingSetIterator_Next_def receive_def)

lemma drained_step: "drained p \<Longrightarrow> preload_step ops zero d p = None"
  by (simp add: drained_def preload_step_def)

lemma drained_cancel: "drained p \<Longrightarrow> drained (p\<lparr>ctx_done := True\<rparr>)"
  by (simp add: drained_def)

lemma run_drained:
  assumes "drained p" and "run ops zero acts p = (rs, q)"
  shows "list_all (\<lambda>r. r = (False, err_it p)) rs \<and> drained q \<and> err_it q = err_it p"
  using assms
proof (induction acts arbitrary: p rs q)
  case Nil
  then show ?case by simp
next
  case (Cons a acts)
  show ?case
  proof (cases a)
    case (Preload d)
    with Cons.prems have "run ops zero acts p = (rs, q)"
      by (simp add: drained_step)
    from Cons.IH [OF Cons.prems(1) this] show ?thesis .
  next
    case Cancel
    with Cons.prems have "run ops zero acts (p\<lparr>ctx_done := True\<rparr>) = (rs, q)" by simp
    from Cons.IH [OF drained_cancel [OF Cons.prems(1)] this] show ?thesis by simp
  next
    case CallNext
    obtain rs' q' where r: "run ops zero acts p = (rs', q')"
      by (cases "run ops zero acts p")
    with CallNext Cons.prems have "rs = (False, err_it p) # rs'" "q = q'"
      by (simp_all add: drained_Next preloadingSetIterator_Err_def)
    with Cons.IH [OF Cons.prems(1) r] show ?thesis by simp
  qed
qed

lemma run_false_is_final:
  assumes "preload_inv p" and "run ops zero acts p = (rs, q)"
  shows "false_is_final rs \<and> preload_inv q"
  using assms
proof (induction acts arbitrary: p rs q)
  case Nil
  then show ?case by simp
next
  case (Cons a acts)
  show ?case
  proof (cases a)
    case (Preload d)
    show ?thesis
    proof (cases "preload_step ops zero d p")
      case None
      with Preload Cons.prems have "run ops zero acts p = (rs, q)" by simp
      from Cons.IH [OF Cons.prems(1) this] show ?thesis .
    next
      case (Some p')
      with Preload Cons.prems have "run ops zero acts p' = (rs, q)" by simp
      from Cons.IH [OF preload_inv_step [OF Cons.prems(1) Some] this] show ?thesis .
    qed
  next
    case Cancel
    with Cons.prems have "run ops zero acts (p\<lparr>ctx_done := True\<rparr>) = (rs, q)" by simp
    from Cons.IH [OF preload_inv_cancel [OF Cons.prems(1)] this] show ?thesis .
  next
    case CallNext
    show ?thesis
    proof (cases "preloadingSetIterator_Next p")
      case None
      with CallNext Cons.prems have "run ops zero acts p = (rs, q)" by simp
      from Cons.IH [OF Cons.prems(1) this] show ?thesis .
    next
      case (Some okp)
      obtain ok p' where okp: "okp = (ok, p')" by (cases okp)
      obtain rs' q' where r: "run ops zero acts p' = (rs', q')"
        by (cases "run ops zero acts p'")
      from CallNext Cons.prems Some okp r
      have rs: "rs = (ok, err_it p') # rs'" and q: "q = q'"
        by (simp_all add: preloadingSetIterator_Err_def)
      from Some okp have nx: "preloadingSetIterator_Next p = Some (ok, p')" by simp
      from Cons.IH [OF preload_inv_Next [OF Cons.prems(1) nx] r]
      have ih: "false_is_final rs'" "preload_inv q'" by simp_all
      have "\<not> ok \<Longrightarrow> list_all (\<lambda>r. r = (False, err_it p')) rs'"
      proof -
        assume "\<not> ok"
        with nx have "preloadingSetIterator_Next p = Some (False, p')" by simp
        from Next_false_drained [OF Cons.prems(1) this] have "drained p'" .
        from run_drained [OF this r] show ?thesis by simp
      qed
      with ih rs q show ?thesis by simp
    qed
  qed
qed

lemma run_drained_results:
  assumes "drained p"
  shows "fst (run ops zero acts p)
           = replicate (length (filter (\<lambda>a. a = CallNext) acts)) (False, err_it p)"
  using assms
proof (induction acts arbitrary: p)
  case Nil
  show ?case by simp
next
  case (Cons a acts)
  show ?case
  proof (cases a)
    case (Preload d)
    with Cons show ?thesis by (simp add: drained_step)
  next
    case Cancel
    with Cons.IH [OF drained_cancel [OF Cons.prems]] show ?thesis by simp
  next
    case CallNext
    obtain rs' q' where r: "run ops zero acts p = (rs', q')"
      by (cases "run ops zero acts p")
    with Cons.IH [OF Cons.prems]
    have "rs' = replicate (length (filter (\<lambda>a. a = CallNext) acts)) (False, err_it p)"
      by simp
    with CallNext Cons.prems r show ?thesis
      by (simp add: drained_Next preloadingSetIterator_Err_def)
  qed
qed

lemma preload_step_cap:
  "preload_step ops zero d p = Some p' \<Longrightarrow> preloaded_cap p' = preloaded_cap p"
  by (cases "preload_pc p"; cases "it_Next ops (from_pre p)")
     (auto simp add: preload_step_def split: if_splits bool.splits)

lemma Next_cap:
  "preloadingSetIterator_Next p = Some (ok, p') \<Longrightarrow> preloaded_cap p' = preloaded_cap p"
  by (cases "preloaded p"; cases "preload_pc p")
     (auto simp add: preloadingSetIterator_Next_def receive_def Let_def split: if_splits)

lemma run_cap: "preloaded_cap (snd (run ops zero acts p)) = preloaded_cap p"
proof (induction acts arbitrary: p)
  case Nil
  show ?case by simp
next
  case (Cons a acts)
  show ?case
  proof (cases a)
    case (Preload d)
    with Cons show ?thesis
      by (cases "preload_step ops zero d p") (simp_all add: preload_step_cap)
  next
    case Cancel
    with Cons [of "p\<lparr>ctx_done := True\<rparr>"] show ?thesis by simp
  next
    case CallNext
    show ?thesis
    proof (cases "preloadingSetIterator_Next p")
      case None
      with CallNext Cons show ?thesis by simp
    next
      case (Some okp)
      obtain ok p' where okp: "okp = (ok, p')" by (cases okp)
      with Some have "preloaded_cap p' = preloaded_cap p" by (simp add: Next_cap)
      with CallNext Some okp Cons [of p'] show ?thesis
        by (cases "run ops zero acts p'") simp
    qed
  qed
qed

lemma run_append:
  "run ops zero (xs @ ys) p =
     (case run ops zero xs p of
        (rs, q) \<Rightarrow> (case run ops zero ys q of (rs', q') \<Rightarrow> (rs @ rs', q')))"
proof (induction xs arbitrary: p)
  case Nil
  show ?case by (cases "run ops zero ys p") simp
next
  case (Cons a xs)
  show ?case
  proof (cases a)
    case (Preload d)
    with Cons show ?thesis by (cases "preload_step ops zero d p") simp_all
  next
    case Cancel
    with Cons show ?thesis by simp
  next
    case CallNext
    show ?thesis
    proof (cases "preloadingSetIterator_Next p")
      case None
      with CallNext Cons show ?thesis by simp
    next
      case (Some okp)
      obtain ok p' where okp: "okp = (ok, p')" by (cases okp)
      with CallNext Some Cons [of p'] show ?thesis
        by (cases "run ops zero xs p'"; cases "run ops zero ys (snd (run ops zero xs p'))")
           (simp add: split_beta)
    qed
  qed
qed

lemma count_rounds: "length (filter (\<lambda>a. a = CallNext) (rounds k)) = k"
  by (induction k) (simp_all add: rounds_def)

lemma rounds_Suc: "rounds (Suc k) = [Preload False, Preload False, CallNext] @ rounds k"
  by (simp add: rounds_def)

text \<open>One round at the loop head with an empty buffer.\<close>

lemma round_value:
  assumes "preload_pc p = AtLoopHead" and "preloaded p = []"
    and "it_Next ops (from_pre p) = (True, u')"
  shows "run ops zero [Preload d, Preload False, CallNext] p
           = ([(True, None)],
              p\<lparr>from_pre := u', preloaded := [], preload_pc := AtLoopHead,
                current_pre := it_At ops u', err_it := None\<rparr>)"
  using assms
  by (cases "0 < preloaded_cap p")
     (simp_all add: preload_step_def preloadingSetIterator_Next_def receive_def
        preloadingSetIterator_Err_def Let_def)

lemma round_end:
  assumes "preload_pc p = AtLoopHead" and "preloaded p = []"
    and "it_Next ops (from_pre p) = (False, u')" and "it_Err ops u' = None"
  shows "run ops zero [Preload d, Preload False, CallNext] p
           = ([(False, err_it p)],
              p\<lparr>from_pre := u', preload_pc := Returned, preloaded_closed := True\<rparr>)"
  using assms
  by (simp add: preload_step_def preloadingSetIterator_Next_def receive_def
        preloadingSetIterator_Err_def Let_def)

lemma round_error:
  assumes "preload_pc p = AtLoopHead" and "preloaded p = []"
    and "it_Next ops (from_pre p) = (False, u')" and "it_Err ops u' = Some e"
  shows "run ops zero [Preload d, Preload False, CallNext] p
           = ([(False, Some e)],
              p\<lparr>from_pre := u', preloaded := [], preload_pc := Returned,
                preloaded_closed := True, current_pre := zero, err_it := Some e\<rparr>)"
  using assms
  by (cases "0 < preloaded_cap p")
     (simp_all add: preload_step_def preloadingSetIterator_Next_def receive_def
        preloadingSetIterator_Err_def Let_def)

lemma rounds_step:
  assumes "run ops zero [Preload False, Preload False, CallNext] p = (rs, q)"
  shows "fst (run ops zero (rounds (Suc k)) p) = rs @ fst (run ops zero (rounds k) q)"
  unfolding rounds_Suc run_append assms
  by (simp add: split_beta)

lemma rounds_results:
  assumes "preload_pc p = AtLoopHead" and "preloaded p = []"
  shows "fst (run ops zero (rounds k) p) = upstream_results ops k (from_pre p) (err_it p)"
  using assms
proof (induction k arbitrary: p)
  case 0
  show ?case by (simp add: rounds_def)
next
  case (Suc k)
  obtain ok u' where nx: "it_Next ops (from_pre p) = (ok, u')"
    by (cases "it_Next ops (from_pre p)")
  show ?case
  proof (cases ok)
    case True
    let ?q = "p\<lparr>from_pre := u', preloaded := [], preload_pc := AtLoopHead,
                current_pre := it_At ops u', err_it := None\<rparr>"
    from True nx have nx': "it_Next ops (from_pre p) = (True, u')" by simp
    note r = round_value [OF Suc.prems nx', of zero False]
    have "fst (run ops zero (rounds k) ?q) = upstream_results ops k (from_pre ?q) (err_it ?q)"
      by (rule Suc.IH) simp_all
    with rounds_step [OF r] nx' show ?thesis by simp
  next
    case False
    with nx have nx': "it_Next ops (from_pre p) = (False, u')" by simp
    show ?thesis
    proof (cases "it_Err ops u'")
      case None
      let ?q = "p\<lparr>from_pre := u', preload_pc := Returned, preloaded_closed := True\<rparr>"
      note r = round_end [OF Suc.prems nx' None, of zero False]
      from Suc.prems have "drained ?q" by (simp add: drained_def)
      from run_drained_results [OF this, of ops zero "rounds k"]
      have "fst (run ops zero (rounds k) ?q) = replicate k (False, err_it p)"
        by (simp add: count_rounds)
      with rounds_step [OF r] nx' None show ?thesis by simp
    next
      case (Some e)
      let ?q = "p\<lparr>from_pre := u', preloaded := [], preload_pc := Returned,
                  preloaded_closed := True, current_pre := zero, err_it := Some e\<rparr>"
      note r = round_error [OF Suc.prems nx' Some, of zero False]
      have "drained ?q" by (simp add: drained_def)
      from run_drained_results [OF this, of ops zero "rounds k"]
      have "fst (run ops zero (rounds k) ?q) = replicate k (False, Some e)"
        by (simp add: count_rounds)
      with rounds_step [OF r] nx' Some show ?thesis by simp
    qed
  qed
qed

lemma new_iterator:
  assumes "newPreloadingSetIterator zero d n u = Inr p0"
  shows "int (preloaded_cap p0) = n - 1" and "preloaded p0 = []" and "\<not> preloaded_closed p0"
    and "preload_pc p0 = AtLoopHead" and "from_pre p0 = u" and "err_it p0 = None"
    and "ctx_done p0 = d"
  using assms by (auto simp add: newPreloadingSetIterator_def split: if_splits)

lemma run_keeps_inv:
  assumes "newPreloadingSetIterator zero d n u = Inr p0"
  shows "preload_inv (snd (run ops zero acts p0))"
    and "length (preloaded (snd (run ops zero acts p0))) \<le> preloaded_cap p0"
proof -
  from assms have inv: "preload_inv p0" by (rule preload_inv_new)
  from run_false_is_final [OF inv, of ops zero acts]
  show inv': "preload_inv (snd (run ops zero acts p0))"
    by (cases "run ops zero acts p0") simp
  from preload_invD(1) [OF inv'] run_cap [of ops zero acts p0]
  show "length (preloaded (snd (run ops zero acts p0))) \<le> preloaded_cap p0"
    by simp
qed

lemma at_loop_head_value:
  assumes "preload_pc p = AtLoopHead" and "it_Next ops (from_pre p) = (True, u')"
  shows "preload_step ops zero pick_done p
           = Some (p\<lparr>from_pre := u',
                     preload_pc := AtSelect \<lparr>set_pre = it_At ops u', err_pre = None\<rparr>\<rparr>)"
    and "length (preloaded p) < preloaded_cap p \<Longrightarrow>
         run ops zero [Preload pick_done, Preload False] p
           = ([], p\<lparr>from_pre := u',
                    preloaded := preloaded p @ [\<lparr>set_pre = it_At ops u', err_pre = None\<rparr>],
                    preload_pc := AtLoopHead\<rparr>)"
    and "preloaded_cap p \<le> length (preloaded p) \<Longrightarrow>
         run ops zero [Preload pick_done, Preload False] p
           = ([], p\<lparr>from_pre := u',
                    preload_pc := AtSelect \<lparr>set_pre = it_At ops u', err_pre = None\<rparr>\<rparr>)"
  using assms by (simp_all add: preload_step_def)

lemma at_select:
  assumes "preload_pc p = AtSelect x"
  shows "length (preloaded p) < preloaded_cap p \<Longrightarrow>
         preload_step ops zero False p
           = Some (p\<lparr>preloaded := preloaded p @ [x], preload_pc := AtLoopHead\<rparr>)"
    and "preloaded_cap p \<le> length (preloaded p) \<Longrightarrow> preload_step ops zero False p = None"
    and "ctx_done p \<Longrightarrow>
         preload_step ops zero True p
           = Some (p\<lparr>preload_pc := Returned, preloaded_closed := True\<rparr>)"
    and "\<not> ctx_done p \<Longrightarrow> preload_step ops zero True p = None"
    and "preloaded p = [] \<Longrightarrow> receive p = Some (Some x, p\<lparr>preload_pc := AtLoopHead\<rparr>)"
    and "preloaded p = [] \<Longrightarrow>
         run ops zero [Cancel, Preload True, CallNext] p
           = ([(False, err_it p)],
              p\<lparr>ctx_done := True, preload_pc := Returned, preloaded_closed := True\<rparr>)"
  using assms
  by (simp_all add: preload_step_def receive_def preloadingSetIterator_Next_def
        preloadingSetIterator_Err_def)

lemma at_loop_head_end:
  assumes "preload_pc p = AtLoopHead" and "it_Next ops (from_pre p) = (False, u')"
  shows "it_Err ops u' = None \<Longrightarrow>
         preload_step ops zero pick_done p
           = Some (p\<lparr>from_pre := u', preload_pc := Returned, preloaded_closed := True\<rparr>)"
    and "it_Err ops u' \<noteq> None \<Longrightarrow>
         preload_step ops zero pick_done p
           = Some (p\<lparr>from_pre := u',
                     preload_pc := AtFinalSend \<lparr>set_pre = zero, err_pre = it_Err ops u'\<rparr>\<rparr>)"
    and "preloaded p = [] \<Longrightarrow>
         fst (run ops zero [Preload pick_done, CallNext, CallNext] p)
           = (if it_Err ops u' = None then [(False, err_it p), (False, err_it p)]
              else [(False, it_Err ops u'), (False, it_Err ops u')])"
  using assms
  by (auto simp add: preload_step_def preloadingSetIterator_Next_def receive_def
        preloadingSetIterator_Err_def Let_def)

lemma at_final_send:
  assumes "preload_pc p = AtFinalSend x"
  shows "length (preloaded p) < preloaded_cap p \<Longrightarrow>
         preload_step ops zero pick_done p
           = Some (p\<lparr>preloaded := preloaded p @ [x], preload_pc := Returned,
                     preloaded_closed := True\<rparr>)"
    and "preloaded_cap p \<le> length (preloaded p) \<Longrightarrow> preload_step ops zero pick_done p = None"
    and "preloaded p = [] \<Longrightarrow>
         receive p = Some (Some x, p\<lparr>preload_pc := Returned, preloaded_closed := True\<rparr>)"
  using assms by (simp_all add: preload_step_def receive_def)

lemma receive_cases:
  shows "preloaded p = x # rest \<Longrightarrow> receive p = Some (Some x, p\<lparr>preloaded := rest\<rparr>)"
    and "preloaded p = [] \<Longrightarrow> preload_pc p = AtLoopHead \<Longrightarrow>
         receive p = None \<and> preloadingSetIterator_Next p = None"
    and "preloaded p = [] \<Longrightarrow> preload_pc p = Returned \<Longrightarrow> preloaded_closed p \<Longrightarrow>
         receive p = Some (None, p)"
  by (simp_all add: receive_def preloadingSetIterator_Next_def)

lemma Next_of_receive:
  assumes nx: "preloadingSetIterator_Next p = Some (ok, p')"
  shows "\<not> ok \<longleftrightarrow>
           receive p = Some (None, p')
         \<or> (\<exists>x q. receive p = Some (Some x, q) \<and> err_pre x \<noteq> None)"
    and "\<forall>x q. receive p = Some (Some x, q) \<longrightarrow>
            preloadingSetIterator_Err p' = err_pre x \<and> preloadingSetIterator_At p' = set_pre x"
    and "receive p = Some (None, p') \<longrightarrow> preloaded_closed p \<and> preloaded p = [] \<and> p' = p"
proof -
  from nx obtain r q where rc: "receive p = Some (r, q)"
    by (auto simp add: preloadingSetIterator_Next_def split: option.splits)
  from nx rc show "\<not> ok \<longleftrightarrow>
           receive p = Some (None, p')
         \<or> (\<exists>x q. receive p = Some (Some x, q) \<and> err_pre x \<noteq> None)"
    by (cases r) (auto simp add: preloadingSetIterator_Next_def Let_def)
  from nx show "\<forall>x q. receive p = Some (Some x, q) \<longrightarrow>
            preloadingSetIterator_Err p' = err_pre x \<and> preloadingSetIterator_At p' = set_pre x"
    by (auto simp add: preloadingSetIterator_Next_def Let_def preloadingSetIterator_Err_def
          preloadingSetIterator_At_def)
  show "receive p = Some (None, p') \<longrightarrow> preloaded_closed p \<and> preloaded p = [] \<and> p' = p"
    by (cases "preloaded p"; cases "preload_pc p") (auto simp add: receive_def split: if_splits)
qed

text \<open>
  C4: the channel of a new preloading iterator has capacity \<open>preloadedSetsCount - 1\<close>
  (\<open>make\<close> panics below 1), and in every run the buffer stays within it; in every run
  only the last value of the buffer can carry an error, and the channel is closed exactly
  when the goroutine has returned. When the goroutine and the consumer take turns, \<open>Next\<close>
  returns true once for each value of the upstream and from then on false with the
  upstream's error.

  At the loop head, a value of the upstream takes the goroutine to the \<open>select\<close> with that
  value and no error. There the send puts the value at the end of the buffer when the
  buffer has room, and waits when it is full; a consumer that waits at the empty buffer is
  handed the value; and the goroutine returns and closes the channel when the context is
  done and that case is picked, after which \<open>Next\<close> returns false and leaves \<open>Err\<close> alone.
  When the upstream returns false at the loop head, the goroutine returns and closes the
  channel at once if the upstream has no error, and otherwise goes to the final send with
  the zero set and the upstream's error, which it sends (into the buffer, waiting while
  it is full, or to the waiting consumer) before it returns and closes. Once returned
  the goroutine takes no step.

  The receive takes the oldest value of the buffer; at the empty buffer it waits while the
  goroutine is at the loop head, and finds the channel closed once the goroutine has
  returned. \<open>Next\<close> of the consumer returns false exactly when the receive found the
  channel closed and empty or received a value with an error; it stores the value and the
  error it received, so \<open>Err\<close> returns that error.
\<close>

theorem preloading_termination:
  "(n < 1 \<longrightarrow> newPreloadingSetIterator zero d n u = Inl MakeChanSizeOutOfRange)
 \<and> (\<forall>p0. newPreloadingSetIterator zero d n u = Inr p0 \<longrightarrow>
        int (preloaded_cap p0) = n - 1 \<and> preloaded p0 = [] \<and> \<not> preloaded_closed p0
      \<and> preload_pc p0 = AtLoopHead \<and> from_pre p0 = u
      \<and> length (preloaded (snd (run ops zero acts p0))) \<le> preloaded_cap p0
      \<and> preload_inv (snd (run ops zero acts p0))
      \<and> fst (run ops zero (rounds k) p0) = upstream_results ops k u None)
 \<and> (\<forall>u'. preload_pc p = AtLoopHead \<and> it_Next ops (from_pre p) = (True, u') \<longrightarrow>
        preload_step ops zero pick_done p
          = Some (p\<lparr>from_pre := u',
                    preload_pc := AtSelect \<lparr>set_pre = it_At ops u', err_pre = None\<rparr>\<rparr>)
      \<and> (length (preloaded p) < preloaded_cap p \<longrightarrow>
           run ops zero [Preload pick_done, Preload False] p
             = ([], p\<lparr>from_pre := u',
                      preloaded := preloaded p @ [\<lparr>set_pre = it_At ops u', err_pre = None\<rparr>],
                      preload_pc := AtLoopHead\<rparr>))
      \<and> (preloaded_cap p \<le> length (preloaded p) \<longrightarrow>
           run ops zero [Preload pick_done, Preload False] p
             = ([], p\<lparr>from_pre := u',
                      preload_pc := AtSelect \<lparr>set_pre = it_At ops u', err_pre = None\<rparr>\<rparr>))
      \<and> (preloaded p = [] \<longrightarrow>
           run ops zero [Preload pick_done, Preload False, CallNext] p
             = ([(True, None)],
                p\<lparr>from_pre := u', preloaded := [], preload_pc := AtLoopHead,
                  current_pre := it_At ops u', err_it := None\<rparr>)))
 \<and> (\<forall>x. preload_pc p = AtSelect x \<longrightarrow>
        (length (preloaded p) < preloaded_cap p \<longrightarrow>
           preload_step ops zero False p
             = Some (p\<lparr>preloaded := preloaded p @ [x], preload_pc := AtLoopHead\<rparr>))
      \<and> (preloaded_cap p \<le> length (preloaded p) \<longrightarrow> preload_step ops zero False p = None)
      \<and> (ctx_done p \<longrightarrow>
           preload_step ops zero True p
             = Some (p\<lparr>preload_pc := Returned, preloaded_closed := True\<rparr>))
      \<and> (\<not> ctx_done p \<longrightarrow> preload_step ops zero True p = None)
      \<and> (preloaded p = [] \<longrightarrow>
           receive p = Some (Some x, p\<lparr>preload_pc := AtLoopHead\<rparr>)
         \<and> run ops zero [Cancel, Preload True, CallNext] p
             = ([(False, err_it p)],
                p\<lparr>ctx_done := True, preload_pc := Returned, preloaded_closed := True\<rparr>)))
 \<and> (\<forall>u'. preload_pc p = AtLoopHead \<and> it_Next ops (from_pre p) = (False, u') \<longrightarrow>
        (it_Err ops u' = None \<longrightarrow>
           preload_step ops zero pick_done p
             = Some (p\<lparr>from_pre := u', preload_pc := Returned, preloaded_closed := True\<rparr>))
      \<and> (it_Err ops u' \<noteq> None \<longrightarrow>
           preload_step ops zero pick_done p
             = Some (p\<lparr>from_pre := u',
                       preload_pc := AtFinalSend \<lparr>set_pre = zero, err_pre = it_Err ops u'\<rparr>\<rparr>))
      \<and> (preloaded p = [] \<longrightarrow>
           fst (run ops zero [Preload pick_done, CallNext, CallNext] p)
             = (if it_Err ops u' = None then [(False, err_it p), (False, err_it p)]
                else [(False, it_Err ops u'), (False, it_Err ops u')])))
 \<and> (\<forall>x. preload_pc p = AtFinalSend x \<longrightarrow>
        (length (preloaded p) < preloaded_cap p \<longrightarrow>
           preload_step ops zero pick_done p
             = Some (p\<lparr>preloaded := preloaded p @ [x], preload_pc := Returned,
                       preloaded_closed := True\<rparr>))
      \<and> (preloaded_cap p \<le> length (preloaded p) \<longrightarrow>
           preload_step ops zero pick_done p = None)
      \<and> (preloaded p = [] \<longrightarrow>
           receive p = Some (Some x, p\<lparr>preload_pc := Returned, preloaded_closed := True\<rparr>)))
 \<and> (preload_pc p = Returned \<longrightarrow> preload_step ops zero pick_done p = None)
 \<and> (\<forall>x rest. preloaded p = x # rest \<longrightarrow>
        receive p = Some (Some x, p\<lparr>preloaded := rest\<rparr>))
 \<and> (preloaded p = [] \<and> preload_pc p = AtLoopHead \<longrightarrow>
        receive p = None \<and> preloadingSetIterator_Next p = None)
 \<and> (preloaded p = [] \<and> preload_pc p = Returned \<and> preloaded_closed p \<longrightarrow>
        receive p = Some (None, p))
 \<and> (\<forall>ok p'. preloadingSetIterator_Next p = Some (ok, p') \<longrightarrow>
        (\<not> ok \<longleftrightarrow>
           receive p = Some (None, p')
         \<or> (\<exists>x q. receive p = Some (Some x, q) \<and> err_pre x \<noteq> None))
      \<and> (\<forall>x q. receive p = Some (Some x, q) \<longrightarrow>
            preloadingSetIterator_Err p' = err_pre x \<and> preloadingSetIterator_At p' = set_pre x)
      \<and> (receive p = Some (None, p') \<longrightarrow>
            preloaded_closed p \<and> preloaded p = [] \<and> p' = p))"
proof -
  have c1: "n < 1 \<longrightarrow> newPreloadingSetIterator zero d n u = Inl MakeChanSizeOutOfRange"
    by (simp add: newPreloadingSetIterator_def)
  have c2: "\<forall>p0. newPreloadingSetIterator zero d n u = Inr p0 \<longrightarrow>
        int (preloaded_cap p0) = n - 1 \<and> preloaded p0 = [] \<and> \<not> preloaded_closed p0
      \<and> preload_pc p0 = AtLoopHead \<and> from_pre p0 = u
      \<and> length (preloaded (snd (run ops zero acts p0))) \<le> preloaded_cap p0
      \<and> preload_inv (snd (run ops zero acts p0))
      \<and> fst (run ops zero (rounds k) p0) = upstream_results ops k u None"
  proof (intro allI impI)
    fix p0 assume new: "newPreloadingSetIterator zero d n u = Inr p0"
    note f = new_iterator [OF new]
    from rounds_results [OF f(4) f(2), of ops zero k] f(5) f(6)
    have "fst (run ops zero (rounds k) p0) = upstream_results ops k u None" by simp
    with f(1-5) run_keeps_inv [OF new, of ops acts]
    show "int (preloaded_cap p0) = n - 1 \<and> preloaded p0 = [] \<and> \<not> preloaded_closed p0
      \<and> preload_pc p0 = AtLoopHead \<and> from_pre p0 = u
      \<and> length (preloaded (snd (run ops zero acts p0))) \<le> preloaded_cap p0
      \<and> preload_inv (snd (run ops zero acts p0))
      \<and> fst (run ops zero (rounds k) p0) = upstream_results ops k u None"
      by (intro conjI)
  qed
  have c3: "\<forall>u'. preload_pc p = AtLoopHead \<and> it_Next ops (from_pre p) = (True, u') \<longrightarrow>
        preload_step ops zero pick_done p
          = Some (p\<lparr>from_pre := u',
                    preload_pc := AtSelect \<lparr>set_pre = it_At ops u', err_pre = None\<rparr>\<rparr>)
      \<and> (length (preloaded p) < preloaded_cap p \<longrightarrow>
           run ops zero [Preload pick_done, Preload False] p
             = ([], p\<lparr>from_pre := u',
                      preloaded := preloaded p @ [\<lparr>set_pre = it_At ops u', err_pre = None\<rparr>],
                      preload_pc := AtLoopHead\<rparr>))
      \<and> (preloaded_cap p \<le> length (preloaded p) \<longrightarrow>
           run ops zero [Preload pick_done, Preload False] p
             = ([], p\<lparr>from_pre := u',
                      preload_pc := AtSelect \<lparr>set_pre = it_At ops u', err_pre = None\<rparr>\<rparr>))
      \<and> (preloaded p = [] \<longrightarrow>
           run ops zero [Preload pick_done, Preload False, CallNext] p
             = ([(True, None)],
                p\<lparr>from_pre := u', preloaded := [], preload_pc := AtLoopHead,
                  current_pre := it_At ops u', err_it := None\<rparr>))"
  proof (intro allI impI)
    fix u' assume "preload_pc p = AtLoopHead \<and> it_Next ops (from_pre p) = (True, u')"
    then have h: "preload_pc p = AtLoopHead" and nx: "it_Next ops (from_pre p) = (True, u')"
      by simp_all
    from at_loop_head_value [OF h nx, of zero pick_done] round_value [OF h _ nx, of zero pick_done]
    show "preload_step ops zero pick_done p
          = Some (p\<lparr>from_pre := u',
                    preload_pc := AtSelect \<lparr>set_pre = it_At ops u', err_pre = None\<rparr>\<rparr>)
      \<and> (length (preloaded p) < preloaded_cap p \<longrightarrow>
           run ops zero [Preload pick_done, Preload False] p
             = ([], p\<lparr>from_pre := u',
                      preloaded := preloaded p @ [\<lparr>set_pre = it_At ops u', err_pre = None\<rparr>],
                      preload_pc := AtLoopHead\<rparr>))
      \<and> (preloaded_cap p \<le> length (preloaded p) \<longrightarrow>
           run ops zero [Preload pick_done, Preload False] p
             = ([], p\<lparr>from_pre := u',
                      preload_pc := AtSelect \<lparr>set_pre = it_At ops u', err_pre = None\<rparr>\<rparr>))
      \<and> (preloaded p = [] \<longrightarrow>
           run ops zero [Preload pick_done, Preload False, CallNext] p
             = ([(True, None)],
                p\<lparr>from_pre := u', preloaded := [], preload_pc := AtLoopHead,
                  current_pre := it_At ops u', err_it := None\<rparr>))"
      by blast
  qed
  have c4: "\<forall>x. preload_pc p = AtSelect x \<longrightarrow>
        (length (preloaded p) < preloaded_cap p \<longrightarrow>
           preload_step ops zero False p
             = Some (p\<lparr>preloaded := preloaded p @ [x], preload_pc := AtLoopHead\<rparr>))
      \<and> (preloaded_cap p \<le> length (preloaded p) \<longrightarrow> preload_step ops zero False p = None)
      \<and> (ctx_done p \<longrightarrow>
           preload_step ops zero True p
             = Some (p\<lparr>preload_pc := Returned, preloaded_closed := True\<rparr>))
      \<and> (\<not> ctx_done p \<longrightarrow> preload_step ops zero True p = None)
      \<and> (preloaded p = [] \<longrightarrow>
           receive p = Some (Some x, p\<lparr>preload_pc := AtLoopHead\<rparr>)
         \<and> run ops zero [Cancel, Preload True, CallNext] p
             = ([(False, err_it p)],
                p\<lparr>ctx_done := True, preload_pc := Returned, preloaded_closed := True\<rparr>))"
  proof (intro allI impI)
    fix x assume h: "preload_pc p = AtSelect x"
    from at_select [OF h]
    show "(length (preloaded p) < preloaded_cap p \<longrightarrow>
           preload_step ops zero False p
             = Some (p\<lparr>preloaded := preloaded p @ [x], preload_pc := AtLoopHead\<rparr>))
      \<and> (preloaded_cap p \<le> length (preloaded p) \<longrightarrow> preload_step ops zero False p = None)
      \<and> (ctx_done p \<longrightarrow>
           preload_step ops zero True p
             = Some (p\<lparr>preload_pc := Returned, preloaded_closed := True\<rparr>))
      \<and> (\<not> ctx_done p \<longrightarrow> preload_step ops zero True p = None)
      \<and> (preloaded p = [] \<longrightarrow>
           receive p = Some (Some x, p\<lparr>preload_pc := AtLoopHead\<rparr>)
         \<and> run ops zero [Cancel, Preload True, CallNext] p
             = ([(False, err_it p)],
                p\<lparr>ctx_done := True, preload_pc := Returned, preloaded_closed := True\<rparr>))"
      by blast
  qed
  have c5: "\<forall>u'. preload_pc p = AtLoopHead \<and> it_Next ops (from_pre p) = (False, u') \<longrightarrow>
        (it_Err ops u' = None \<longrightarrow>
           preload_step ops zero pick_done p
             = Some (p\<lparr>from_pre := u', preload_pc := Returned, preloaded_closed := True\<rparr>))
      \<and> (it_Err ops u' \<noteq> None \<longrightarrow>
           preload_step ops zero pick_done p
             = Some (p\<lparr>from_pre := u',
                       preload_pc := AtFinalSend \<lparr>set_pre = zero, err_pre = it_Err ops u'\<rparr>\<rparr>))
      \<and> (preloaded p = [] \<longrightarrow>
           fst (run ops zero [Preload pick_done, CallNext, CallNext] p)
             = (if it_Err ops u' = None then [(False, err_it p), (False, err_it p)]
                else [(False, it_Err ops u'), (False, it_Err ops u')]))"
  proof (intro allI impI)
    fix u' assume "preload_pc p = AtLoopHead \<and> it_Next ops (from_pre p) = (False, u')"
    then have h: "preload_pc p = AtLoopHead" and nx: "it_Next ops (from_pre p) = (False, u')"
      by simp_all
    from at_loop_head_end [OF h nx, of zero pick_done]
    show "(it_Err ops u' = None \<longrightarrow>
           preload_step ops zero pick_done p
             = Some (p\<lparr>from_pre := u', preload_pc := Returned, preloaded_closed := True\<rparr>))
      \<and> (it_Err ops u' \<noteq> None \<longrightarrow>
           preload_step ops zero pick_done p
             = Some (p\<lparr>from_pre := u',
                       preload_pc := AtFinalSend \<lparr>set_pre = zero, err_pre = it_Err ops u'\<rparr>\<rparr>))
      \<and> (preloaded p = [] \<longrightarrow>
           fst (run ops zero [Preload pick_done, CallNext, CallNext] p)
             = (if it_Err ops u' = None then [(False, err_it p), (False, err_it p)]
                else [(False, it_Err ops u'), (False, it_Err ops u')]))"
      by blast
  qed
  have c6: "\<forall>x. preload_pc p = AtFinalSend x \<longrightarrow>
        (length (preloaded p) < preloaded_cap p \<longrightarrow>
           preload_step ops zero pick_done p
             = Some (p\<lparr>preloaded := preloaded p @ [x], preload_pc := Returned,
                       preloaded_closed := True\<rparr>))
      \<and> (preloaded_cap p \<le> length (preloaded p) \<longrightarrow>
           preload_step ops zero pick_done p = None)
      \<and> (preloaded p = [] \<longrightarrow>
           receive p = Some (Some x, p\<lparr>preload_pc := Returned, preloaded_closed := True\<rparr>))"
  proof (intro allI impI)
    fix x assume h: "preload_pc p = AtFinalSend x"
    from at_final_send [OF h]
    show "(length (preloaded p) < preloaded_cap p \<longrightarrow>
           preload_step ops zero pick_done p
             = Some (p\<lparr>preloaded := preloaded p @ [x], preload_pc := Returned,
                       preloaded_closed := True\<rparr>))
      \<and> (preloaded_cap p \<le> length (preloaded p) \<longrightarrow>
           preload_step ops zero pick_done p = None)
      \<and> (preloaded p = [] \<longrightarrow>
           receive p = Some (Some x, p\<lparr>preload_pc := Returned, preloaded_closed := True\<rparr>))"
      by blast
  qed
  have c7: "preload_pc p = Returned \<longrightarrow> preload_step ops zero pick_done p = None"
    by (simp add: preload_step_def)
  have c8: "\<forall>x rest. preloaded p = x # rest \<longrightarrow>
        receive p = Some (Some x, p\<lparr>preloaded := rest\<rparr>)"
    by (simp add: receive_cases(1))
  have c9: "preloaded p = [] \<and> preload_pc p = AtLoopHead \<longrightarrow>
        receive p = None \<and> preloadingSetIterator_Next p = None"
    by (simp add: receive_cases(2))
  have c10: "preloaded p = [] \<and> preload_pc p = Returned \<and> preloaded_closed p \<longrightarrow>
        receive p = Some (None, p)"
    by (simp add: receive_cases(3))
  have c11: "\<forall>ok p'. preloadingSetIterator_Next p = Some (ok, p') \<longrightarrow>
        (\<not> ok \<longleftrightarrow>
           receive p = Some (None, p')
         \<or> (\<exists>x q. receive p = Some (Some x, q) \<and> err_pre x \<noteq> None))
      \<and> (\<forall>x q. receive p = Some (Some x, q) \<longrightarrow>
            preloadingSetIterator_Err p' = err_pre x \<and> preloadingSetIterator_At p' = set_pre x)
      \<and> (receive p = Some (None, p') \<longrightarrow>
            preloaded_closed p \<and> preloaded p = [] \<and> p' = p)"
  proof (intro allI impI)
    fix ok p' assume nx: "preloadingSetIterator_Next p = Some (ok, p')"
    from Next_of_receive [OF nx]
    show "(\<not> ok \<longleftrightarrow>
           receive p = Some (None, p')
         \<or> (\<exists>x q. receive p = Some (Some x, q) \<and> err_pre x \<noteq> None))
      \<and> (\<forall>x q. receive p = Some (Some x, q) \<longrightarrow>
            preloadingSetIterator_Err p' = err_pre x \<and> preloadingSetIterator_At p' = set_pre x)
      \<and> (receive p = Some (None, p') \<longrightarrow>
            preloaded_closed p \<and> preloaded p = [] \<and> p' = p)"
      by (intro conjI)
  qed
  from c1 c2 c3 c4 c5 c6 c7 c8 c9 c10 c11 show ?thesis by (intro conjI)
qed

lemma example_buffered_run:
  "newPreloadingSetIterator 0 False 3 0
     = Inr \<lparr>ctx_done = False, from_pre = 0, current_pre = 0, preloaded = [],
            preloaded_cap = 2, preloaded_closed = False, err_it = None,
            preload_pc = AtLoopHead\<rparr>
   \<and> run two_then_fail 0 [Preload False, Preload False, Preload False, Preload False]
        \<lparr>ctx_done = False, from_pre = 0, current_pre = 0, preloaded = [],
         preloaded_cap = 2, preloaded_closed = False, err_it = None,
         preload_pc = AtLoopHead\<rparr>
     = ([],
        \<lparr>ctx_done = False, from_pre = 2, current_pre = 0,
         preloaded = [\<lparr>set_pre = 10, err_pre = None\<rparr>, \<lparr>set_pre = 20, err_pre = None\<rparr>],
         preloaded_cap = 2, preloaded_closed = False, err_it = None,
         preload_pc = AtLoopHead\<rparr>)
   \<and> run two_then_fail 0
        [Preload False, Preload False, Preload False, Preload False, Preload False,
         Preload False, CallNext, Preload False, CallNext, CallNext, CallNext]
        \<lparr>ctx_done = False, from_pre = 0, current_pre = 0, preloaded = [],
         preloaded_cap = 2, preloaded_closed = False, err_it = None,
         preload_pc = AtLoopHead\<rparr>
     = ([(True, None), (True, None), (False, Some (Error ''fetch failed'')),
         (False, Some (Error ''fetch failed''))],
        \<lparr>ctx_done = False, from_pre = 3, current_pre = 0, preloaded = [],
         preloaded_cap = 2, preloaded_closed = True, err_it = Some (Error ''fetch failed''),
         preload_pc = Returned\<rparr>)"
  by (simp add: newPreloadingSetIterator_def two_then_fail_def preload_step_def
        preloadingSetIterator_Next_def receive_def preloadingSetIterator_Err_def Let_def)

theorem preloading_termination_witness:
  "newPreloadingSetIterator 0 False 3 0
     = Inr \<lparr>ctx_done = False, from_pre = 0::nat, current_pre = 0::nat, preloaded = [],
            preloaded_cap = 2, preloaded_closed = False, err_it = None,
            preload_pc = AtLoopHead\<rparr>
   \<and> run two_then_fail 0 [Preload False, Preload False, Preload False, Preload False]
        \<lparr>ctx_done = False, from_pre = 0, current_pre = 0, preloaded = [],
         preloaded_cap = 2, preloaded_closed = False, err_it = None,
         preload_pc = AtLoopHead\<rparr>
     = ([],
        \<lparr>ctx_done = False, from_pre = 2, current_pre = 0,
         preloaded = [\<lparr>set_pre = 10, err_pre = None\<rparr>, \<lparr>set_pre = 20, err_pre = None\<rparr>],
         preloaded_cap = 2, preloaded_closed = False, err_it = None,
         preload_pc = AtLoopHead\<rparr>)
   \<and> run two_then_fail 0
        [Preload False, Preload False, Preload False, Preload False, Preload False,
         Preload False, CallNext, Preload False, CallNext, CallNext, CallNext]
        \<lparr>ctx_done = False, from_pre = 0, current_pre = 0, preloaded = [],
         preloaded_cap = 2, preloaded_closed = False, err_it = None,
         preload_pc = AtLoopHead\<rparr>
     = ([(True, None), (True, None), (False, Some (Error ''fetch failed'')),
         (False, Some (Error ''fetch failed''))],
        \<lparr>ctx_done = False, from_pre = 3, current_pre = 0, preloaded = [],
         preloaded_cap = 2, preloaded_closed = True, err_it = Some (Error ''fetch failed''),
         preload_pc = Returned\<rparr>)
   \<and> preload_inv
        \<lparr>ctx_done = False, from_pre = 3::nat, current_pre = 0::nat, preloaded = [],
         preloaded_cap = 2, preloaded_closed = True, err_it = Some (Error ''fetch failed''),
         preload_pc = Returned\<rparr>
   \<and> fst (run two_then_fail 0 (rounds 4)
        \<lparr>ctx_done = False, from_pre = 0, current_pre = 0, preloaded = [],
         preloaded_cap = 2, preloaded_closed = False, err_it = None,
         preload_pc = AtLoopHead\<rparr>)
     = [(True, None), (True, None), (False, Some (Error ''fetch failed'')),
        (False, Some (Error ''fetch failed''))]"
proof -
  let ?p0 = "\<lparr>ctx_done = False, from_pre = 0::nat, current_pre = 0::nat, preloaded = [],
            preloaded_cap = 2, preloaded_closed = False, err_it = None,
            preload_pc = AtLoopHead\<rparr>"
  let ?acts = "[Preload False, Preload False, Preload False, Preload False, Preload False,
         Preload False, CallNext, Preload False, CallNext, CallNext, CallNext]"
  let ?q = "\<lparr>ctx_done = False, from_pre = 3::nat, current_pre = 0::nat, preloaded = [],
         preloaded_cap = 2, preloaded_closed = True, err_it = Some (Error ''fetch failed''),
         preload_pc = Returned\<rparr>"
  from example_buffered_run
  have new: "newPreloadingSetIterator 0 False 3 0 = Inr ?p0"
    by (rule conjunct1)
  from example_buffered_run
  have r: "run two_then_fail 0 ?acts ?p0
     = ([(True, None), (True, None), (False, Some (Error ''fetch failed'')),
         (False, Some (Error ''fetch failed''))], ?q)"
    by (rule conjunct2 [OF conjunct2])
  from example_buffered_run
  have ahead: "run two_then_fail 0 [Preload False, Preload False, Preload False, Preload False] ?p0
     = ([],
        \<lparr>ctx_done = False, from_pre = 2, current_pre = 0,
         preloaded = [\<lparr>set_pre = 10, err_pre = None\<rparr>, \<lparr>set_pre = 20, err_pre = None\<rparr>],
         preloaded_cap = 2, preloaded_closed = False, err_it = None,
         preload_pc = AtLoopHead\<rparr>)"
    by (rule conjunct1 [OF conjunct2])
  from preloading_termination [of 3 0 False 0 two_then_fail ?acts 4]
  have "\<forall>p0. newPreloadingSetIterator 0 False 3 0 = Inr p0 \<longrightarrow>
        int (preloaded_cap p0) = 3 - 1 \<and> preloaded p0 = [] \<and> \<not> preloaded_closed p0
      \<and> preload_pc p0 = AtLoopHead \<and> from_pre p0 = 0
      \<and> length (preloaded (snd (run two_then_fail 0 ?acts p0))) \<le> preloaded_cap p0
      \<and> preload_inv (snd (run two_then_fail 0 ?acts p0))
      \<and> fst (run two_then_fail 0 (rounds 4) p0) = upstream_results two_then_fail 4 0 None"
    by (rule conjunct1 [OF conjunct2])
  then have "newPreloadingSetIterator 0 False 3 0 = Inr ?p0 \<longrightarrow>
        int (preloaded_cap ?p0) = 3 - 1 \<and> preloaded ?p0 = [] \<and> \<not> preloaded_closed ?p0
      \<and> preload_pc ?p0 = AtLoopHead \<and> from_pre ?p0 = 0
      \<and> length (preloaded (snd (run two_then_fail 0 ?acts ?p0))) \<le> preloaded_cap ?p0
      \<and> preload_inv (snd (run two_then_fail 0 ?acts ?p0))
      \<and> fst (run two_then_fail 0 (rounds 4) ?p0) = upstream_results two_then_fail 4 0 None"
    by (rule spec)
  with new have t: "int (preloaded_cap ?p0) = 3 - 1 \<and> preloaded ?p0 = [] \<and> \<not> preloaded_closed ?p0
      \<and> preload_pc ?p0 = AtLoopHead \<and> from_pre ?p0 = 0
      \<and> length (preloaded (snd (run two_then_fail 0 ?acts ?p0))) \<le> preloaded_cap ?p0
      \<and> preload_inv (snd (run two_then_fail 0 ?acts ?p0))
      \<and> fst (run two_then_fail 0 (rounds 4) ?p0) = upstream_results two_then_fail 4 0 None"
    by (rule rev_mp)
  from t have t7: "preload_inv (snd (run two_then_fail 0 ?acts ?p0))"
    by (rule conjunct1 [OF conjunct2 [OF conjunct2 [OF conjunct2 [OF conjunct2 [OF conjunct2 [OF conjunct2]]]]]])
  from t have t8: "fst (run two_then_fail 0 (rounds 4) ?p0) = upstream_results two_then_fail 4 0 None"
    by (rule conjunct2 [OF conjunct2 [OF conjunct2 [OF conjunct2 [OF conjunct2 [OF conjunct2 [OF conjunct2]]]]]])
  from t7 have inv: "preload_inv ?q" by (simp only: r snd_conv)
  have "upstream_results two_then_fail 4 0 None
          = [(True, None), (True, None), (False, Some (Error ''fetch failed'')),
             (False, Some (Error ''fetch failed''))]"
    by (simp add: two_then_fail_def numeral_eq_Suc)
  with t8 have rs: "fst (run two_then_fail 0 (rounds 4) ?p0)
     = [(True, None), (True, None), (False, Some (Error ''fetch failed'')),
        (False, Some (Error ''fetch failed''))]"
    by (rule trans)
  from new ahead r inv rs show ?thesis by (intro conjI)
qed

section \<open>Properties of the loader\<close>

lemma addLoad_all_append:
  "addLoad_all rd r (xs @ ys) =
     (case addLoad_all rd r xs of
        (Some e, r') \<Rightarrow> (Some e, r')
      | (None, r') \<Rightarrow> addLoad_all rd r' ys)"
proof (induction xs arbitrary: r)
  case Nil
  show ?case by simp
next
  case (Cons x xs)
  obtain b rf i j where x: "x = (b, rf, i, j)" by (cases x)
  show ?case
  proof (cases "cr_addLoad rd r b rf i j")
    case (Pair e r1)
    with x Cons show ?thesis by (cases e) simp_all
  qed
qed

lemma update_slice_Slice:
  "update_slice (Slice b m) i f =
     (if 0 \<le> i \<and> i < int m \<and> nat i < length b then Inr (Slice (b[nat i := f (b ! nat i)]) m)
      else Inl IndexOutOfRange)"
  by (simp add: update_slice_def)

lemma update_slice_nil: "update_slice nil_slice i f = Inl IndexOutOfRange"
  by (simp add: update_slice_def)

lemma update_slice_InrD:
  assumes "update_slice s i f = Inr s'"
  shows "\<exists>b m. s = Slice b m \<and> 0 \<le> i \<and> i < int m \<and> nat i < length b
           \<and> s' = Slice (b[nat i := f (b ! nat i)]) m"
  using assms
  by (cases s) (simp_all add: update_slice_nil update_slice_Slice split: if_splits)

text \<open>One round of the inner loop.\<close>

lemma addLoads_Cons:
  assumes "0 \<le> j" and "j < int m" and "a < length mem" and "nat j < length (mem ! a)"
  shows "addLoads rd i j (c # cks) (AggrChunks a m cp) r mem =
     (case cr_addLoad rd r (blockID c) (ref c) i j of
        (Some e, r') \<Rightarrow>
          Inr (Some e, r',
               mem[a := (mem ! a)[nat j := (mem ! a ! nat j)\<lparr>MinTime := minTime c,
                                                              MaxTime := maxTime c\<rparr>]])
      | (None, r') \<Rightarrow>
          addLoads rd i (j + 1) cks (AggrChunks a m cp) r'
            (mem[a := (mem ! a)[nat j := (mem ! a ! nat j)\<lparr>MinTime := minTime c,
                                                           MaxTime := maxTime c\<rparr>]]))"
  using assms by (simp split: prod.splits option.splits)

lemma addLoads_Cons_fault:
  assumes "\<not> (0 \<le> j \<and> j < int m \<and> a < length mem \<and> nat j < length (mem ! a))"
  shows "addLoads rd i j (c # cks) (AggrChunks a m cp) r mem = Inl IndexOutOfRange"
  using assms by auto

declare addLoads.simps(2) [simp del]

lemma addLoads_result:
  assumes "addLoads rd i j cks (AggrChunks a m cp) r mem = Inr (e, r', mem')" and "0 \<le> j"
    and "nat j \<le> m" and "a < length mem" and "m \<le> length (mem ! a)"
  shows "\<exists>b'. mem' = mem[a := b'] \<and> length b' = length (mem ! a)
           \<and> (\<forall>k < nat j. b' ! k = mem ! a ! k)
           \<and> (e, r') = addLoad_all rd r (chunk_slots i j cks)
           \<and> (e = None \<longrightarrow>
                 nat j + length cks \<le> m
               \<and> (\<forall>k < length cks. MinTime (b' ! (nat j + k)) = minTime (cks ! k)
                                  \<and> MaxTime (b' ! (nat j + k)) = maxTime (cks ! k)))"
  using assms
proof (induction cks arbitrary: j mem r)
  case Nil
  then have "mem' = mem[a := mem ! a]" "e = None" "r' = r" by simp_all
  with Nil.prems show ?case by (intro exI [of _ "mem ! a"]) simp
next
  case (Cons c cks)
  let ?b = "mem ! a"
  show ?case
  proof (cases "0 \<le> j \<and> j < int m \<and> a < length mem \<and> nat j < length ?b")
    case False
    from addLoads_Cons_fault [OF False, of rd i c cks cp r] Cons.prems(1) show ?thesis by simp
  next
    case True
    let ?b1 = "?b[nat j := (?b ! nat j)\<lparr>MinTime := minTime c, MaxTime := maxTime c\<rparr>]"
    let ?mem1 = "mem[a := ?b1]"
    obtain e1 r1 where al: "cr_addLoad rd r (blockID c) (ref c) i j = (e1, r1)"
      by (cases "cr_addLoad rd r (blockID c) (ref c) i j")
    show ?thesis
    proof (cases e1)
      case (Some x)
      with al True Cons.prems(1) have "mem' = ?mem1" "e = Some x" "r' = r1"
        by (simp_all add: addLoads_Cons)
      with al Some True show ?thesis by (intro exI [of _ ?b1]) simp
    next
      case None
      with al True Cons.prems(1)
      have rec: "addLoads rd i (j + 1) cks (AggrChunks a m cp) r1 ?mem1 = Inr (e, r', mem')"
        by (simp add: addLoads_Cons)
      from Cons.prems(2) have j1: "0 \<le> j + 1" by simp
      from True have j2: "nat (j + 1) \<le> m" by linarith
      from Cons.prems(4) have a1: "a < length ?mem1" by simp
      from Cons.prems(4) have at1: "?mem1 ! a = ?b1" by simp
      from Cons.prems(5) at1 have j3: "m \<le> length (?mem1 ! a)" by simp
      from Cons.IH [OF rec j1 j2 a1 j3] obtain b' where b':
        "mem' = ?mem1[a := b']" "length b' = length (?mem1 ! a)"
        "\<forall>k < nat (j + 1). b' ! k = ?mem1 ! a ! k"
        "(e, r') = addLoad_all rd r1 (chunk_slots i (j + 1) cks)"
        "e = None \<longrightarrow>
           nat (j + 1) + length cks \<le> m
         \<and> (\<forall>k < length cks. MinTime (b' ! (nat (j + 1) + k)) = minTime (cks ! k)
                            \<and> MaxTime (b' ! (nat (j + 1) + k)) = maxTime (cks ! k))"
        by blast
      from Cons.prems(2) have nj: "nat (j + 1) = Suc (nat j)" by simp
      from b'(1) have m': "mem' = mem[a := b']" by simp
      from b'(2) at1 have lb: "length b' = length ?b" by simp
      have old: "\<forall>k < nat j. b' ! k = ?b ! k"
        using b'(3) nj at1 by simp
      have here: "b' ! nat j = (?b ! nat j)\<lparr>MinTime := minTime c, MaxTime := maxTime c\<rparr>"
        using b'(3) nj at1 True by simp
      have bounds: "\<forall>k < length (c # cks). MinTime (b' ! (nat j + k)) = minTime ((c # cks) ! k)
                                  \<and> MaxTime (b' ! (nat j + k)) = maxTime ((c # cks) ! k)"
        if "e = None"
      proof (intro allI impI)
        fix k assume k: "k < length (c # cks)"
        show "MinTime (b' ! (nat j + k)) = minTime ((c # cks) ! k)
                                  \<and> MaxTime (b' ! (nat j + k)) = maxTime ((c # cks) ! k)"
        proof (cases k)
          case 0
          with here show ?thesis by simp
        next
          case (Suc k')
          with k b'(5) that nj show ?thesis by simp
        qed
      qed
      from b'(5) nj have sizes: "e = None \<longrightarrow> nat j + length (c # cks) \<le> m"
        by simp
      from m' lb old b'(4) al None bounds sizes show ?thesis
        by (intro exI [of _ b']) simp
    qed
  qed
qed

lemma addLoads_total:
  assumes "0 \<le> j" and "nat j + length cks \<le> m" and "a < length mem"
    and "m \<le> length (mem ! a)"
  shows "\<exists>e r' mem'. addLoads rd i j cks (AggrChunks a m cp) r mem = Inr (e, r', mem')"
  using assms
proof (induction cks arbitrary: j mem r)
  case Nil
  show ?case by simp
next
  case (Cons c cks)
  then have ok: "0 \<le> j" "j < int m" "a < length mem" "nat j < length (mem ! a)" by auto
  let ?b1 = "(mem ! a)[nat j := (mem ! a ! nat j)\<lparr>MinTime := minTime c, MaxTime := maxTime c\<rparr>]"
  obtain e1 r1 where al: "cr_addLoad rd r (blockID c) (ref c) i j = (e1, r1)"
    by (cases "cr_addLoad rd r (blockID c) (ref c) i j")
  show ?case
  proof (cases e1)
    case (Some x)
    with al ok show ?thesis by (simp add: addLoads_Cons)
  next
    case None
    from Cons.prems have "0 \<le> j + 1" "nat (j + 1) + length cks \<le> m"
      "a < length (mem[a := ?b1])" "m \<le> length (mem[a := ?b1] ! a)"
      by auto
    from Cons.IH [OF this, of r1] al None ok show ?thesis
      by (simp add: addLoads_Cons)
  qed
qed

lemma newSeriesAggrChunkSlice_length:
  "\<exists>ns1. newSeriesAggrChunkSlice ns (int k) mem
            = Inr (AggrChunks (length mem) k k, ns1, mem @ [replicate k AggrChunk_zero])
     \<and> series ns1 = series ns \<and> seriesReleasable ns1 = seriesReleasable ns
     \<and> chunksReleaser ns1 = chunksReleaser ns
     \<and> (seriesReleasable ns \<or> seriesChunksPool ns \<noteq> None \<longrightarrow> seriesChunksPool ns1 \<noteq> None)"
  by (cases "seriesChunksPool ns")
     (simp_all add: newSeriesAggrChunkSlice_def make_chunks_def SlabPool_Get_def Let_def)

text \<open>The inner loop on the array that was allocated for it.\<close>

lemma stamped_chunks:
  assumes "addLoads rd i 0 cks (AggrChunks (length mem) (length cks) (length cks)) r
             (mem @ [replicate (length cks) AggrChunk_zero]) = Inr (e, r', mem')"
  shows "\<exists>b'. mem' = mem @ [b'] \<and> length b' = length cks
           \<and> (e = None \<longrightarrow> map MinTime b' = map minTime cks \<and> map MaxTime b' = map maxTime cks)"
proof -
  let ?mem0 = "mem @ [replicate (length cks) AggrChunk_zero]"
  have a: "length mem < length ?mem0" by simp
  have l: "length cks \<le> length (?mem0 ! length mem)" by simp
  from addLoads_result [OF assms _ _ a l] obtain b' where b':
    "mem' = ?mem0[length mem := b']" "length b' = length (?mem0 ! length mem)"
    "e = None \<longrightarrow>
       (\<forall>k < length cks. MinTime (b' ! k) = minTime (cks ! k) \<and> MaxTime (b' ! k) = maxTime (cks ! k))"
    by auto
  from b'(2) have lb: "length b' = length cks" by simp
  from b'(1) have m: "mem' = mem @ [b']" by simp
  from lb b'(3)
  have "e = None \<longrightarrow> map MinTime b' = map minTime cks \<and> map MaxTime b' = map maxTime cks"
    by (simp add: list_eq_iff_nth_eq)
  with m lb show ?thesis by blast
qed

text \<open>One round of the outer loop.\<close>

declare convert.simps(2) [simp del]

lemma convert_Cons:
  assumes ser: "series ns = Slice b m" and i: "0 \<le> i" "i < int m" "nat i < length b"
  shows "\<exists>e r' b' ns1.
           length b' = length (chunks s)
         \<and> (e = None \<longrightarrow> map MinTime b' = map minTime (chunks s)
                         \<and> map MaxTime b' = map maxTime (chunks s))
         \<and> addLoad_all rd r (chunk_slots i 0 (chunks s)) = (e, r')
         \<and> series ns1
             = Slice (b[nat i := (b ! nat i)\<lparr>lset := lset_refs s,
                          chks := AggrChunks (length mem) (length (chunks s))
                                    (length (chunks s))\<rparr>]) m
         \<and> seriesReleasable ns1 = seriesReleasable ns
         \<and> chunksReleaser ns1 = chunksReleaser ns
         \<and> (seriesReleasable ns \<or> seriesChunksPool ns \<noteq> None \<longrightarrow> seriesChunksPool ns1 \<noteq> None)
         \<and> convert rd i (s # rest) ns r mem =
             (case e of Some x \<Rightarrow> Inr (Some x, ns1, r', mem @ [b'])
              | None \<Rightarrow> convert rd (i + 1) rest ns1 r' (mem @ [b']))"
proof -
  let ?k = "length (chunks s)"
  let ?cs = "AggrChunks (length mem) ?k ?k"
  let ?mem0 = "mem @ [replicate ?k AggrChunk_zero]"
  let ?b1 = "b[nat i := (b ! nat i)\<lparr>lset := lset_refs s\<rparr>]"
  have u1: "update_slice (series ns) i (\<lambda>e. e\<lparr>lset := lset_refs s\<rparr>) = Inr (Slice ?b1 m)"
    using ser i by (simp add: update_slice_Slice)
  from newSeriesAggrChunkSlice_length [of "ns\<lparr>series := Slice ?b1 m\<rparr>" ?k mem]
  obtain ns1 where ns1:
    "newSeriesAggrChunkSlice (ns\<lparr>series := Slice ?b1 m\<rparr>) (int ?k) mem = Inr (?cs, ns1, ?mem0)"
    "series ns1 = Slice ?b1 m" "seriesReleasable ns1 = seriesReleasable ns"
    "chunksReleaser ns1 = chunksReleaser ns"
    "seriesReleasable ns \<or> seriesChunksPool ns \<noteq> None \<longrightarrow> seriesChunksPool ns1 \<noteq> None"
    by auto
  let ?b2 = "?b1[nat i := (?b1 ! nat i)\<lparr>chks := ?cs\<rparr>]"
  have u2: "update_slice (series ns1) i (\<lambda>e. e\<lparr>chks := ?cs\<rparr>) = Inr (Slice ?b2 m)"
    using ns1(2) i by (simp add: update_slice_Slice)
  have a: "length mem < length ?mem0" by simp
  have l: "?k \<le> length (?mem0 ! length mem)" by simp
  from addLoads_total [OF _ _ a l, of 0 "chunks s" rd i ?k r]
  obtain e r' mem2 where al: "addLoads rd i 0 (chunks s) ?cs r ?mem0 = Inr (e, r', mem2)"
    by auto
  from stamped_chunks [OF al] obtain b' where b': "mem2 = mem @ [b']" "length b' = ?k"
    "e = None \<longrightarrow> map MinTime b' = map minTime (chunks s)
                 \<and> map MaxTime b' = map maxTime (chunks s)"
    by blast
  from addLoads_result [OF al _ _ a l]
  have slots: "addLoad_all rd r (chunk_slots i 0 (chunks s)) = (e, r')" by auto
  have b2: "?b2 = b[nat i := (b ! nat i)\<lparr>lset := lset_refs s, chks := ?cs\<rparr>]"
    using i by simp
  let ?ns2 = "ns1\<lparr>series := Slice ?b2 m\<rparr>"
  have cv0: "convert rd i (s # rest) ns r mem =
          (case e of Some x \<Rightarrow> Inr (Some x, ?ns2, r', mem2)
           | None \<Rightarrow> convert rd (i + 1) rest ?ns2 r' mem2)"
    by (simp only: convert.simps u1 ns1(1) u2 al sum.case prod.case)
  have cv: "convert rd i (s # rest) ns r mem =
          (case e of Some x \<Rightarrow> Inr (Some x, ?ns2, r', mem @ [b'])
           | None \<Rightarrow> convert rd (i + 1) rest ?ns2 r' (mem @ [b']))"
    using cv0 unfolding b'(1) .
  have s2: "series ?ns2 = Slice (b[nat i := (b ! nat i)\<lparr>lset := lset_refs s, chks := ?cs\<rparr>]) m"
    using b2 by simp
  have f2: "seriesReleasable ?ns2 = seriesReleasable ns"
    "chunksReleaser ?ns2 = chunksReleaser ns"
    "seriesReleasable ns \<or> seriesChunksPool ns \<noteq> None \<longrightarrow> seriesChunksPool ?ns2 \<noteq> None"
    using ns1 by simp_all
  show ?thesis
    apply (rule exI [of _ e], rule exI [of _ r'], rule exI [of _ b'], rule exI [of _ ?ns2])
    using b'(2) b'(3) slots s2 f2 cv by (intro conjI)
qed

lemma convert_Cons_fault:
  assumes "series ns = Slice b m" and "\<not> (0 \<le> i \<and> i < int m \<and> nat i < length b)"
  shows "convert rd i (s # rest) ns r mem = Inl IndexOutOfRange"
  using assms by (auto simp add: convert.simps(2) update_slice_Slice)

lemma convert_nil_fault:
  assumes "series ns = nil_slice"
  shows "convert rd i (s # rest) ns r mem = Inl IndexOutOfRange"
  using assms by (simp add: convert.simps(2) update_slice_nil)

lemma fidelity_new_array:
  assumes "length b' = length (chunks s)"
    and "map MinTime b' = map minTime (chunks s)" and "map MaxTime b' = map maxTime (chunks s)"
  shows "chunk_fidelity (mem @ b' # ext)
           s (e\<lparr>lset := lset_refs s,
                chks := AggrChunks (length mem) (length (chunks s)) (length (chunks s))\<rparr>)"
  using assms by (simp add: chunk_fidelity_def)

lemma convert_result:
  assumes "convert rd i U ns r mem = Inr (e, ns', r', mem')" and "0 \<le> i"
    and "series ns = Slice b m" and "nat i \<le> m" and "m \<le> length b"
  shows "\<exists>b' ext. series ns' = Slice b' m \<and> length b' = length b
           \<and> (\<forall>k < nat i. b' ! k = b ! k)
           \<and> seriesReleasable ns' = seriesReleasable ns
           \<and> chunksReleaser ns' = chunksReleaser ns
           \<and> ((seriesReleasable ns \<and> U \<noteq> []) \<or> seriesChunksPool ns \<noteq> None
                \<longrightarrow> seriesChunksPool ns' \<noteq> None)
           \<and> (e, r') = addLoad_all rd r (batch_slots i U)
           \<and> mem' = mem @ ext
           \<and> (e = None \<longrightarrow>
                 nat i + length U \<le> m
               \<and> (\<forall>k < length U. chunk_fidelity mem' (U ! k) (b' ! (nat i + k))))"
  using assms
proof (induction U arbitrary: i ns r b mem)
  case Nil
  then have "ns' = ns" "e = None" "r' = r" "mem' = mem @ []" by simp_all
  with Nil.prems show ?case by (intro exI [of _ b] exI [of _ "[]"]) simp
next
  case (Cons s rest)
  show ?case
  proof (cases "0 \<le> i \<and> i < int m \<and> nat i < length b")
    case False
    from convert_Cons_fault [OF Cons.prems(3) False, of rd s rest r mem] Cons.prems(1)
    show ?thesis by simp
  next
    case True
    then have i: "0 \<le> i" "i < int m" "nat i < length b" by auto
    let ?cs = "AggrChunks (length mem) (length (chunks s)) (length (chunks s))"
    let ?b1 = "b[nat i := (b ! nat i)\<lparr>lset := lset_refs s, chks := ?cs\<rparr>]"
    from convert_Cons [OF Cons.prems(3) i, of s rd r mem rest]
    obtain e1 r1 bs ns1 where c:
      "length bs = length (chunks s)"
      "e1 = None \<longrightarrow> map MinTime bs = map minTime (chunks s)
                    \<and> map MaxTime bs = map maxTime (chunks s)"
      "addLoad_all rd r (chunk_slots i 0 (chunks s)) = (e1, r1)"
      "series ns1 = Slice ?b1 m"
      "seriesReleasable ns1 = seriesReleasable ns"
      "chunksReleaser ns1 = chunksReleaser ns"
      "seriesReleasable ns \<or> seriesChunksPool ns \<noteq> None \<longrightarrow> seriesChunksPool ns1 \<noteq> None"
      "convert rd i (s # rest) ns r mem =
         (case e1 of Some x \<Rightarrow> Inr (Some x, ns1, r1, mem @ [bs])
          | None \<Rightarrow> convert rd (i + 1) rest ns1 r1 (mem @ [bs]))"
      by blast
    show ?thesis
    proof (cases e1)
      case (Some x)
      with c(8) Cons.prems(1) have "e = Some x" "ns' = ns1" "r' = r1" "mem' = mem @ [bs]"
        by simp_all
      moreover from c(3) Some
      have "addLoad_all rd r (batch_slots i (s # rest)) = (Some x, r1)"
        by (simp add: addLoad_all_append)
      ultimately show ?thesis using c(4) c(5) c(6) c(7) i
        by (intro exI [of _ ?b1] exI [of _ "[bs]"]) simp
    next
      case None
      with c(8) Cons.prems(1)
      have rec: "convert rd (i + 1) rest ns1 r1 (mem @ [bs]) = Inr (e, ns', r', mem')"
        by simp
      from i have i1: "0 \<le> i + 1" "nat (i + 1) \<le> m" by linarith+
      from Cons.prems(5) have m1: "m \<le> length ?b1" by simp
      from Cons.IH [OF rec i1(1) c(4) i1(2) m1] obtain b' ext where b':
        "series ns' = Slice b' m" "length b' = length ?b1"
        "\<forall>k < nat (i + 1). b' ! k = ?b1 ! k"
        "seriesReleasable ns' = seriesReleasable ns1"
        "chunksReleaser ns' = chunksReleaser ns1"
        "(seriesReleasable ns1 \<and> rest \<noteq> []) \<or> seriesChunksPool ns1 \<noteq> None
           \<longrightarrow> seriesChunksPool ns' \<noteq> None"
        "(e, r') = addLoad_all rd r1 (batch_slots (i + 1) rest)"
        "mem' = (mem @ [bs]) @ ext"
        "e = None \<longrightarrow>
           nat (i + 1) + length rest \<le> m
         \<and> (\<forall>k < length rest. chunk_fidelity mem' (rest ! k) (b' ! (nat (i + 1) + k)))"
        by blast
      from i have ni: "nat (i + 1) = Suc (nat i)" by simp
      have old: "\<forall>k < nat i. b' ! k = b ! k"
        using b'(3) ni by simp
      have here: "b' ! nat i = (b ! nat i)\<lparr>lset := lset_refs s, chks := ?cs\<rparr>"
        using b'(3) ni i by simp
      from b'(8) have mem': "mem' = mem @ bs # ext" by simp
      from c(1) c(2) None
      have "chunk_fidelity (mem @ bs # ext) s ((b ! nat i)\<lparr>lset := lset_refs s, chks := ?cs\<rparr>)"
        by (intro fidelity_new_array) simp_all
      with here mem' have fid0: "chunk_fidelity mem' s (b' ! nat i)" by simp
      have fid: "\<forall>k < length (s # rest). chunk_fidelity mem' ((s # rest) ! k) (b' ! (nat i + k))"
        if "e = None"
      proof (intro allI impI)
        fix k assume k: "k < length (s # rest)"
        show "chunk_fidelity mem' ((s # rest) ! k) (b' ! (nat i + k))"
        proof (cases k)
          case 0
          with fid0 show ?thesis by simp
        next
          case (Suc k')
          with k b'(9) that ni show ?thesis by simp
        qed
      qed
      from b'(9) ni have sizes: "e = None \<longrightarrow> nat i + length (s # rest) \<le> m" by simp
      from c(3) None b'(7)
      have slots: "(e, r') = addLoad_all rd r (batch_slots i (s # rest))"
        by (simp add: addLoad_all_append)
      from b'(6) c(5) c(7)
      have pool: "(seriesReleasable ns \<and> s # rest \<noteq> []) \<or> seriesChunksPool ns \<noteq> None
                    \<longrightarrow> seriesChunksPool ns' \<noteq> None"
        by auto
      have ext: "mem' = mem @ (bs # ext)" using mem' by simp
      from b'(1) b'(2) old b'(4) b'(5) c(5) c(6) pool slots ext fid sizes show ?thesis
        by (intro exI [of _ b'] exI [of _ "bs # ext"]) simp
    qed
  qed
qed

lemma convert_total:
  assumes "0 \<le> i" and "series ns = Slice b m" and "nat i + length U \<le> m" and "m \<le> length b"
  shows "\<exists>e ns' r' mem'. convert rd i U ns r mem = Inr (e, ns', r', mem')"
  using assms
proof (induction U arbitrary: i ns r b mem)
  case Nil
  show ?case by simp
next
  case (Cons s rest)
  then have i: "0 \<le> i" "i < int m" "nat i < length b" by auto
  let ?cs = "AggrChunks (length mem) (length (chunks s)) (length (chunks s))"
  from convert_Cons [OF Cons.prems(2) i, of s rd r mem rest]
  obtain e1 r1 bs ns1 where c:
    "series ns1 = Slice (b[nat i := (b ! nat i)\<lparr>lset := lset_refs s, chks := ?cs\<rparr>]) m"
    "convert rd i (s # rest) ns r mem =
       (case e1 of Some x \<Rightarrow> Inr (Some x, ns1, r1, mem @ [bs])
        | None \<Rightarrow> convert rd (i + 1) rest ns1 r1 (mem @ [bs]))"
    by blast
  show ?case
  proof (cases e1)
    case (Some x)
    with c(2) show ?thesis by simp
  next
    case None
    from Cons.prems have "0 \<le> i + 1" "nat (i + 1) + length rest \<le> m"
      "m \<le> length (b[nat i := (b ! nat i)\<lparr>lset := lset_refs s, chks := ?cs\<rparr>])"
      by auto
    from Cons.IH [OF this(1) c(1) this(2) this(3), of r1 "mem @ [bs]"] c(2) None
    show ?thesis by simp
  qed
qed

lemma slice_to_InrD:
  assumes "slice_to s0 n = Inr s"
  shows "(s0 = nil_slice \<and> n = 0 \<and> s = nil_slice)
       \<or> (\<exists>b k. s0 = Slice b k \<and> 0 \<le> n \<and> n \<le> int (length b) \<and> s = Slice b (nat n))"
  using assms by (cases s0) (auto split: if_splits)

lemma newSeriesChunksSet_releasable:
  assumes "0 \<le> seriesCapacity" and "pool_lengths_zero w"
  shows "\<exists>b k w'. newSeriesChunksSet seriesCapacity True pick w
                     = Inr (\<lparr>series = Slice b k, seriesReleasable = True,
                             seriesChunksPool = None, chunksReleaser = None\<rparr>, w')
           \<and> seriesCapacity \<le> int (length b)
           \<and> w' = w\<lparr>seriesEntrySlicePool := snd (pool_Get (seriesEntrySlicePool w) pick)\<rparr>"
proof -
  obtain r p' where g: "pool_Get (seriesEntrySlicePool w) pick = (r, p')"
    by (cases "pool_Get (seriesEntrySlicePool w) pick")
  show ?thesis
  proof (cases r)
    case None
    with g assms(1) show ?thesis
      by (simp add: newSeriesChunksSet_def make_slice_def)
  next
    case (Some reused)
    show ?thesis
    proof (cases reused)
      case nil_slice
      with g Some assms(1) show ?thesis
        by (simp add: newSeriesChunksSet_def make_slice_def)
    next
      case (Slice b k)
      with g Some assms(1) show ?thesis
        by (simp add: newSeriesChunksSet_def make_slice_def)
    qed
  qed
qed

lemma newSeriesChunksSet_InrD:
  assumes "newSeriesChunksSet seriesCapacity True pick w = Inr (ns, w')"
  shows "seriesReleasable ns \<and> chunksReleaser ns = None
           \<and> w' = w\<lparr>seriesEntrySlicePool := snd (pool_Get (seriesEntrySlicePool w) pick)\<rparr>"
  using assms
  by (cases "pool_Get (seriesEntrySlicePool w) pick")
     (auto simp add: newSeriesChunksSet_def make_slice_def Let_def
        split: option.splits if_splits sum.splits)

lemma Next_latched:
  "err c \<noteq> None \<Longrightarrow> loadingSeriesChunksSetIterator_Next refs rd pick c w = Inr (False, c, w)"
  by (simp add: loadingSeriesChunksSetIterator_Next_def)

lemma Next_exhausted:
  assumes "err c = None" and "it_Next refs (from_refs c) = (False, u')"
  shows "loadingSeriesChunksSetIterator_Next refs rd pick c w
           = Inr (False, c\<lparr>from_refs := u', err := it_Err refs u'\<rparr>, w)"
  using assms by (simp add: loadingSeriesChunksSetIterator_Next_def)

text \<open>\<open>Next\<close> once the upstream has yielded a batch and the conversion loop has run.\<close>

lemma Next_batch:
  assumes "err c = None" and "it_Next refs (from_refs c) = (True, u')"
    and "newSeriesChunksSet (max (fromBatchSize c) (int (length (series_refs (it_At refs u')))))
           True pick w = Inr (ns0, w0)"
    and "slice_to (series ns0) (int (length (series_refs (it_At refs u')))) = Inr s"
    and "convert rd 0 (series_refs (it_At refs u')) (ns0\<lparr>series := s\<rparr>)
           (cr_reset rd (chunkReaders c)) (arrays w0) = Inr (e1, ns1, r1, mem1)"
    and "cr_load rd r1 (series ns1) (BatchBytes (batches w0)) mem1 = (e2, r2, b2, mem2)"
  shows "loadingSeriesChunksSetIterator_Next refs rd pick c w =
     (case e1 of
        Some e \<Rightarrow>
          Inr (False,
               c\<lparr>from_refs := u', chunkReaders := r1,
                 err := Some (Wrapped e ''preloading chunks'')\<rparr>,
               deferred False
                 (c\<lparr>from_refs := u', chunkReaders := r1,
                    err := Some (Wrapped e ''preloading chunks'')\<rparr>)
                 ns1 (it_At refs u') (w0\<lparr>arrays := mem1\<rparr>))
      | None \<Rightarrow>
          (case e2 of
             Some e \<Rightarrow>
               Inr (False,
                    c\<lparr>from_refs := u', chunkReaders := r2,
                      err := Some (Wrapped e ''loading chunks'')\<rparr>,
                    deferred False
                      (c\<lparr>from_refs := u', chunkReaders := r2,
                         err := Some (Wrapped e ''loading chunks'')\<rparr>)
                      (ns1\<lparr>series := with_backing (series ns1) b2\<rparr>) (it_At refs u')
                      (w0\<lparr>batches := Suc (batches w0), arrays := mem2\<rparr>))
           | None \<Rightarrow>
               Inr (True,
                    c\<lparr>from_refs := u', chunkReaders := r2,
                      current := ns1\<lparr>series := with_backing (series ns1) b2,
                                     chunksReleaser := Some (BatchBytes (batches w0))\<rparr>\<rparr>,
                    deferred True
                      (c\<lparr>from_refs := u', chunkReaders := r2,
                         current := ns1\<lparr>series := with_backing (series ns1) b2,
                                        chunksReleaser := Some (BatchBytes (batches w0))\<rparr>\<rparr>)
                      (ns1\<lparr>series := with_backing (series ns1) b2,
                           chunksReleaser := Some (BatchBytes (batches w0))\<rparr>)
                      (it_At refs u') (w0\<lparr>batches := Suc (batches w0), arrays := mem2\<rparr>))))"
  using assms
  by (simp add: loadingSeriesChunksSetIterator_Next_def Let_def errors_Wrap_def
        split: option.splits)

text \<open>What \<open>Next\<close> has computed when it returns.\<close>

lemma Next_batch_InrD:
  assumes e: "err c = None" and nx: "it_Next refs (from_refs c) = (True, u')"
    and r: "loadingSeriesChunksSetIterator_Next refs rd pick c w = Inr res"
  shows "\<exists>ns0 w0 s e1 ns1 r1 mem1 e2 r2 b2 mem2.
           newSeriesChunksSet (max (fromBatchSize c) (int (length (series_refs (it_At refs u')))))
             True pick w = Inr (ns0, w0)
         \<and> slice_to (series ns0) (int (length (series_refs (it_At refs u')))) = Inr s
         \<and> convert rd 0 (series_refs (it_At refs u')) (ns0\<lparr>series := s\<rparr>)
             (cr_reset rd (chunkReaders c)) (arrays w0) = Inr (e1, ns1, r1, mem1)
         \<and> cr_load rd r1 (series ns1) (BatchBytes (batches w0)) mem1 = (e2, r2, b2, mem2)"
proof -
  let ?U = "series_refs (it_At refs u')"
  let ?n = "int (length ?U)"
  show ?thesis
  proof (cases "newSeriesChunksSet (max (fromBatchSize c) ?n) True pick w")
    case (Inl f)
    with e nx r show ?thesis
      by (simp add: loadingSeriesChunksSetIterator_Next_def Let_def)
  next
    case (Inr nw)
    obtain ns0 w0 where nw: "nw = (ns0, w0)" by (cases nw)
    note new = Inr [unfolded nw]
    show ?thesis
    proof (cases "slice_to (series ns0) ?n")
      case (Inl f)
      with new e nx r show ?thesis
        by (simp add: loadingSeriesChunksSetIterator_Next_def Let_def)
    next
      case (Inr s) note s = this
      show ?thesis
      proof (cases "convert rd 0 ?U (ns0\<lparr>series := s\<rparr>) (cr_reset rd (chunkReaders c))
                      (arrays w0)")
        case (Inl f)
        with new s e nx r show ?thesis
          by (simp add: loadingSeriesChunksSetIterator_Next_def Let_def)
      next
        case (Inr cres)
        obtain e1 ns1 r1 mem1 where cres: "cres = (e1, ns1, r1, mem1)" by (cases cres)
        obtain e2 r2 b2 mem2 where
          ld: "cr_load rd r1 (series ns1) (BatchBytes (batches w0)) mem1 = (e2, r2, b2, mem2)"
          by (cases "cr_load rd r1 (series ns1) (BatchBytes (batches w0)) mem1")
        from new s Inr cres ld show ?thesis by blast
      qed
    qed
  qed
qed

lemma Next_TrueD:
  assumes "loadingSeriesChunksSetIterator_Next refs rd pick c w = Inr (True, c', w')"
  shows "\<exists>u' ns0 w0 s ns1 r1 mem1 r2 b2 mem2.
           err c = None \<and> it_Next refs (from_refs c) = (True, u')
         \<and> newSeriesChunksSet (max (fromBatchSize c) (int (length (series_refs (it_At refs u')))))
             True pick w = Inr (ns0, w0)
         \<and> slice_to (series ns0) (int (length (series_refs (it_At refs u')))) = Inr s
         \<and> convert rd 0 (series_refs (it_At refs u')) (ns0\<lparr>series := s\<rparr>)
             (cr_reset rd (chunkReaders c)) (arrays w0) = Inr (None, ns1, r1, mem1)
         \<and> cr_load rd r1 (series ns1) (BatchBytes (batches w0)) mem1 = (None, r2, b2, mem2)
         \<and> c' = c\<lparr>from_refs := u', chunkReaders := r2,
                   current := ns1\<lparr>series := with_backing (series ns1) b2,
                                  chunksReleaser := Some (BatchBytes (batches w0))\<rparr>\<rparr>
         \<and> arrays w' = mem2"
proof -
  have e: "err c = None"
  proof (rule ccontr)
    assume "err c \<noteq> None"
    from Next_latched [OF this, of refs rd pick w] assms show False by simp
  qed
  obtain ok u' where nx: "it_Next refs (from_refs c) = (ok, u')"
    by (cases "it_Next refs (from_refs c)")
  with e assms have ok: "ok" by (cases ok) (simp_all add: Next_exhausted)
  with nx have nx': "it_Next refs (from_refs c) = (True, u')" by simp
  from Next_batch_InrD [OF e nx' assms]
  obtain ns0 w0 s e1 ns1 r1 mem1 e2 r2 b2 mem2 where d:
    "newSeriesChunksSet (max (fromBatchSize c) (int (length (series_refs (it_At refs u')))))
       True pick w = Inr (ns0, w0)"
    "slice_to (series ns0) (int (length (series_refs (it_At refs u')))) = Inr s"
    "convert rd 0 (series_refs (it_At refs u')) (ns0\<lparr>series := s\<rparr>)
       (cr_reset rd (chunkReaders c)) (arrays w0) = Inr (e1, ns1, r1, mem1)"
    "cr_load rd r1 (series ns1) (BatchBytes (batches w0)) mem1 = (e2, r2, b2, mem2)"
    by blast
  note nb = Next_batch [OF e nx' d]
  from nb assms have e1: "e1 = None" by (cases e1) simp_all
  from nb assms e1 have e2: "e2 = None" by (cases e2) simp_all
  from nb assms e1 e2
  have c': "c' = c\<lparr>from_refs := u', chunkReaders := r2,
                   current := ns1\<lparr>series := with_backing (series ns1) b2,
                                  chunksReleaser := Some (BatchBytes (batches w0))\<rparr>\<rparr>"
    and w': "arrays w' = mem2"
    by (auto simp add: deferred_def)
  from e nx' d e1 e2 c' w' show ?thesis by blast
qed

lemma fidelity_same_bounds:
  "chunk_fidelity mem s e \<Longrightarrow> same_bounds mem mem' e e' \<Longrightarrow> chunk_fidelity mem' s e'"
  by (simp add: chunk_fidelity_def same_bounds_def)

text \<open>The series slice and the chunks that the conversion loop hands to \<open>load\<close>.\<close>

lemma converted_fidelity:
  assumes "slice_to s0 (int (length U)) = Inr s"
    and "convert rd 0 U (ns0\<lparr>series := s\<rparr>) r mem = Inr (None, ns1, r1, mem1)"
  shows "list_all2 (chunk_fidelity mem1) U (elems (series ns1))"
proof -
  from slice_to_InrD [OF assms(1)] show ?thesis
  proof
    assume "s0 = nil_slice \<and> int (length U) = 0 \<and> s = nil_slice"
    with assms(2) show ?thesis by auto
  next
    assume "\<exists>b k. s0 = Slice b k \<and> 0 \<le> int (length U) \<and> int (length U) \<le> int (length b)
              \<and> s = Slice b (nat (int (length U)))"
    then obtain b k where s: "s = Slice b (length U)" and le: "length U \<le> length b"
      by auto
    from s have ser: "series (ns0\<lparr>series := s\<rparr>) = Slice b (length U)" by simp
    from convert_result [OF assms(2) _ ser] le obtain b' where b':
      "series ns1 = Slice b' (length U)" "length b' = length b"
      "\<forall>k < length U. chunk_fidelity mem1 (U ! k) (b' ! k)"
      by auto
    with le show ?thesis
      by (simp add: list_all2_conv_all_nth)
  qed
qed

text \<open>
  C1: when \<open>Next\<close> of the loader returns true, over chunk readers whose \<open>load\<close> only fills
  the chunks, the set it publishes has one series entry per series of the upstream batch
  (the batch the upstream is at after the call), in order, and each entry has the label
  set of its reference series (the same reference), as many chunks as the series has
  references, and in each chunk, as the memory of the chunks holds it after the call, the
  \<open>minTime\<close> and \<open>maxTime\<close> of the reference at the same position.
\<close>

theorem loadingSeriesChunksSetIterator_Next_fidelity:
  assumes "loadingSeriesChunksSetIterator_Next refs rd pick c w = Inr (True, c', w')"
    and "load_keeps_bounds rd"
  shows "from_refs c' = snd (it_Next refs (from_refs c))
       \<and> length (elems (series (loadingSeriesChunksSetIterator_At c')))
           = length (series_refs (it_At refs (from_refs c')))
       \<and> list_all2 (chunk_fidelity (arrays w')) (series_refs (it_At refs (from_refs c')))
           (elems (series (loadingSeriesChunksSetIterator_At c')))"
proof -
  from Next_TrueD [OF assms(1)] obtain u' ns0 w0 s ns1 r1 mem1 r2 b2 mem2 where
    "err c = None \<and> it_Next refs (from_refs c) = (True, u')
         \<and> newSeriesChunksSet (max (fromBatchSize c) (int (length (series_refs (it_At refs u')))))
             True pick w = Inr (ns0, w0)
         \<and> slice_to (series ns0) (int (length (series_refs (it_At refs u')))) = Inr s
         \<and> convert rd 0 (series_refs (it_At refs u')) (ns0\<lparr>series := s\<rparr>)
             (cr_reset rd (chunkReaders c)) (arrays w0) = Inr (None, ns1, r1, mem1)
         \<and> cr_load rd r1 (series ns1) (BatchBytes (batches w0)) mem1 = (None, r2, b2, mem2)
         \<and> c' = c\<lparr>from_refs := u', chunkReaders := r2,
                   current := ns1\<lparr>series := with_backing (series ns1) b2,
                                  chunksReleaser := Some (BatchBytes (batches w0))\<rparr>\<rparr>
         \<and> arrays w' = mem2"
    by (elim exE) (erule that)
  then have d:
    "it_Next refs (from_refs c) = (True, u')"
    "slice_to (series ns0) (int (length (series_refs (it_At refs u')))) = Inr s"
    "convert rd 0 (series_refs (it_At refs u')) (ns0\<lparr>series := s\<rparr>)
             (cr_reset rd (chunkReaders c)) (arrays w0) = Inr (None, ns1, r1, mem1)"
    "cr_load rd r1 (series ns1) (BatchBytes (batches w0)) mem1 = (None, r2, b2, mem2)"
    "c' = c\<lparr>from_refs := u', chunkReaders := r2,
                   current := ns1\<lparr>series := with_backing (series ns1) b2,
                                  chunksReleaser := Some (BatchBytes (batches w0))\<rparr>\<rparr>"
    "arrays w' = mem2"
    by simp_all
  let ?U = "series_refs (it_At refs u')"
  from converted_fidelity [OF d(2) d(3)]
  have conv: "list_all2 (chunk_fidelity mem1) ?U (elems (series ns1))" .
  from assms(2) d(4)
  have sb: "list_all2 (same_bounds mem1 mem2) (elems (series ns1))
              (elems (with_backing (series ns1) b2))"
    unfolding load_keeps_bounds_def by blast
  have "list_all2 (chunk_fidelity mem2) ?U (elems (with_backing (series ns1) b2))"
    by (rule list_all2_trans
              [where ?P1.0 = "chunk_fidelity mem1" and ?P2.0 = "same_bounds mem1 mem2",
               OF _ conv sb])
       (rule fidelity_same_bounds)
  with d(1) d(5) d(6) show ?thesis
    by (auto simp add: loadingSeriesChunksSetIterator_At_def dest: list_all2_lengthD)
qed

lemma pool_Get_keeps_lengths_zero:
  assumes "pool_lengths_zero w"
  shows "pool_lengths_zero (w\<lparr>seriesEntrySlicePool := snd (pool_Get (seriesEntrySlicePool w) pick)\<rparr>)"
proof -
  obtain r p' where g: "pool_Get (seriesEntrySlicePool w) pick = (r, p')"
    by (cases "pool_Get (seriesEntrySlicePool w) pick")
  from pool_Get_subset [OF g] assms g show ?thesis
    by (auto simp add: pool_lengths_zero_def list_all_iff)
qed

lemma released_world:
  assumes "seriesReleasable ns"
  shows "trace (snd (release ns wm))
           = trace wm @ released_events ns (arrays (snd (release ns wm)))
                          (truncate0 (fst (reset_series (series ns) (arrays wm))))"
    and "seriesEntrySlicePool (snd (release ns wm))
           = seriesEntrySlicePool wm @ [truncate0 (fst (reset_series (series ns) (arrays wm)))]"
    and "batches (snd (release ns wm)) = batches wm"
    and "\<forall>e \<in> set (elems (series ns)).
           elems_chunks (arrays (snd (release ns wm))) (chks e)
             = replicate (length (elems_chunks (arrays wm) (chks e))) AggrChunk_zero"
proof -
  have mem: "snd (reset_series (series ns) (arrays wm))
               = fold (\<lambda>e. reset_chks (chks e)) (elems (series ns)) (arrays wm)"
    by (simp add: reset_series_closed del: reset_series.simps(2))
  from assms show "trace (snd (release ns wm))
           = trace wm @ released_events ns (arrays (snd (release ns wm)))
                          (truncate0 (fst (reset_series (series ns) (arrays wm))))"
    by (simp add: release_releasable)
  from assms show "seriesEntrySlicePool (snd (release ns wm))
           = seriesEntrySlicePool wm @ [truncate0 (fst (reset_series (series ns) (arrays wm)))]"
    by (simp add: release_releasable)
  from assms show "batches (snd (release ns wm)) = batches wm"
    by (simp add: release_releasable)
  from assms show "\<forall>e \<in> set (elems (series ns)).
           elems_chunks (arrays (snd (release ns wm))) (chks e)
             = replicate (length (elems_chunks (arrays wm) (chks e))) AggrChunk_zero"
    by (simp add: release_releasable mem reset_entries_chunks)
qed

lemma deferred_error:
  assumes "err c1 \<noteq> None"
  shows "deferred False c1 ns nextUnloaded wm
           = (snd (release ns wm))
               \<lparr>trace := trace (snd (release ns wm)) @ [RefsSet_release nextUnloaded]\<rparr>"
  using assms by (simp add: deferred_def Let_def)

lemma deferred_published:
  "deferred True c1 ns nextUnloaded wm = wm\<lparr>trace := trace wm @ [RefsSet_release nextUnloaded]\<rparr>"
  by (simp add: deferred_def)

text \<open>What \<open>Next\<close> does with a batch of the upstream, over a pool as \<open>release\<close> leaves it.\<close>

lemma Next_batch_outcome:
  assumes e: "err c = None" and nx: "it_Next refs (from_refs c) = (True, u')"
    and pool: "pool_lengths_zero w"
  shows "\<exists>ok c' w' ns0 s e1 ns1 r1 mem1 e2 r2 b2 mem2 ns wm.
              loadingSeriesChunksSetIterator_Next refs rd pick c w = Inr (ok, c', w')
            \<and> from_refs c' = u'
            \<and> newSeriesChunksSet (max (fromBatchSize c) (int (length (series_refs (it_At refs u')))))
                 True pick w
                 = Inr (ns0, w\<lparr>seriesEntrySlicePool := snd (pool_Get (seriesEntrySlicePool w) pick)\<rparr>)
            \<and> slice_to (series ns0) (int (length (series_refs (it_At refs u')))) = Inr s
            \<and> convert rd 0 (series_refs (it_At refs u')) (ns0\<lparr>series := s\<rparr>)
                 (cr_reset rd (chunkReaders c)) (arrays w) = Inr (e1, ns1, r1, mem1)
            \<and> addLoad_all rd (cr_reset rd (chunkReaders c))
                 (batch_slots 0 (series_refs (it_At refs u'))) = (e1, r1)
            \<and> cr_load rd r1 (series ns1) (BatchBytes (batches w)) mem1 = (e2, r2, b2, mem2)
            \<and> (\<forall>e. e1 = Some e \<longrightarrow> \<not> ok \<and> err c' = Some (Wrapped e ''preloading chunks''))
            \<and> (e1 = None \<longrightarrow>
                  list_all2 (chunk_fidelity mem1) (series_refs (it_At refs u')) (elems (series ns1))
                \<and> (\<forall>e. e2 = Some e \<longrightarrow> \<not> ok \<and> err c' = Some (Wrapped e ''loading chunks''))
                \<and> (e2 = None \<longrightarrow>
                      ok
                    \<and> current c' = ns\<lparr>chunksReleaser := Some (BatchBytes (batches w))\<rparr>
                    \<and> arrays w' = mem2))
            \<and> ns = (if e1 = None then ns1\<lparr>series := with_backing (series ns1) b2\<rparr> else ns1)
            \<and> wm = (if e1 = None
                     then w\<lparr>seriesEntrySlicePool := snd (pool_Get (seriesEntrySlicePool w) pick),
                            batches := Suc (batches w), arrays := mem2\<rparr>
                     else w\<lparr>seriesEntrySlicePool := snd (pool_Get (seriesEntrySlicePool w) pick),
                            arrays := mem1\<rparr>)
            \<and> seriesReleasable ns
            \<and> chunksReleaser ns = None
            \<and> (series_refs (it_At refs u') \<noteq> [] \<longrightarrow> seriesChunksPool ns \<noteq> None)
            \<and> (\<not> ok \<longrightarrow>
                  current c' = current c
                \<and> w' = (snd (release ns wm))
                         \<lparr>trace := trace (snd (release ns wm)) @ [RefsSet_release (it_At refs u')]\<rparr>
                \<and> trace w' = trace w
                     @ released_events ns (arrays w')
                         (truncate0 (fst (reset_series (series ns) (arrays wm))))
                     @ [RefsSet_release (it_At refs u')]
                \<and> seriesEntrySlicePool w'
                     = snd (pool_Get (seriesEntrySlicePool w) pick)
                       @ [truncate0 (fst (reset_series (series ns) (arrays wm)))]
                \<and> len (truncate0 (fst (reset_series (series ns) (arrays wm)))) = 0
                \<and> (\<forall>e \<in> set (elems (series ns)).
                      elems_chunks (arrays w') (chks e)
                        = replicate (length (elems_chunks (arrays wm) (chks e))) AggrChunk_zero))
            \<and> (ok \<longrightarrow>
                  err c' = None
                \<and> chunksReleaser (current c') = Some (BatchBytes (batches w))
                \<and> w' = wm\<lparr>trace := trace w @ [RefsSet_release (it_At refs u')]\<rparr>
                \<and> seriesEntrySlicePool w' = snd (pool_Get (seriesEntrySlicePool w) pick)
                \<and> trace w' = trace w @ [RefsSet_release (it_At refs u')])"
proof -
  let ?U = "series_refs (it_At refs u')"
  let ?n = "int (length ?U)"
  let ?w0 = "w\<lparr>seriesEntrySlicePool := snd (pool_Get (seriesEntrySlicePool w) pick)\<rparr>"
  let ?R = "RefsSet_release (it_At refs u')"
  have "0 \<le> max (fromBatchSize c) ?n" by simp
  from newSeriesChunksSet_releasable [OF this pool, of pick]
  obtain b k where new:
    "newSeriesChunksSet (max (fromBatchSize c) ?n) True pick w
       = Inr (\<lparr>series = Slice b k, seriesReleasable = True,
               seriesChunksPool = None, chunksReleaser = None\<rparr>, ?w0)"
    and cap: "max (fromBatchSize c) ?n \<le> int (length b)"
    by blast
  let ?ns0 = "\<lparr>series = Slice b k, seriesReleasable = True,
               seriesChunksPool = None, chunksReleaser = None\<rparr>"
  from cap have le: "length ?U \<le> length b" by simp
  then have st: "slice_to (series ?ns0) ?n = Inr (Slice b (length ?U))" by simp
  have ser: "series (?ns0\<lparr>series := Slice b (length ?U)\<rparr>) = Slice b (length ?U)" by simp
  from convert_total [OF _ ser _ le, of 0 ?U rd "cr_reset rd (chunkReaders c)" "arrays w"]
  obtain e1 ns1 r1 mem1 where cv:
    "convert rd 0 ?U (?ns0\<lparr>series := Slice b (length ?U)\<rparr>) (cr_reset rd (chunkReaders c))
       (arrays w) = Inr (e1, ns1, r1, mem1)"
    by auto
  then have cv0:
    "convert rd 0 ?U (?ns0\<lparr>series := Slice b (length ?U)\<rparr>) (cr_reset rd (chunkReaders c))
       (arrays ?w0) = Inr (e1, ns1, r1, mem1)"
    by simp
  from convert_result [OF cv _ ser _ le]
  have fl: "seriesReleasable ns1" "chunksReleaser ns1 = None"
    and slots: "addLoad_all rd (cr_reset rd (chunkReaders c)) (batch_slots 0 ?U) = (e1, r1)"
    and sp: "?U \<noteq> [] \<longrightarrow> seriesChunksPool ns1 \<noteq> None"
    by auto
  obtain e2 r2 b2 mem2 where
    ld: "cr_load rd r1 (series ns1) (BatchBytes (batches w)) mem1 = (e2, r2, b2, mem2)"
    by (cases "cr_load rd r1 (series ns1) (BatchBytes (batches w)) mem1")
  then have ld0: "cr_load rd r1 (series ns1) (BatchBytes (batches ?w0)) mem1 = (e2, r2, b2, mem2)"
    by simp
  note nb = Next_batch [OF e nx new st cv0 ld0]
  define ns where "ns = (if e1 = None then ns1\<lparr>series := with_backing (series ns1) b2\<rparr> else ns1)"
  define wm where "wm = (if e1 = None
            then w\<lparr>seriesEntrySlicePool := snd (pool_Get (seriesEntrySlicePool w) pick),
                   batches := Suc (batches w), arrays := mem2\<rparr>
            else w\<lparr>seriesEntrySlicePool := snd (pool_Get (seriesEntrySlicePool w) pick),
                   arrays := mem1\<rparr>)"
  from fl sp have nsfl: "seriesReleasable ns" "chunksReleaser ns = None"
    "?U \<noteq> [] \<longrightarrow> seriesChunksPool ns \<noteq> None"
    by (simp_all add: ns_def)
  have wmf: "trace wm = trace w"
    "seriesEntrySlicePool wm = snd (pool_Get (seriesEntrySlicePool w) pick)"
    by (simp_all add: wm_def)
  let ?reuse = "truncate0 (fst (reset_series (series ns) (arrays wm)))"
  define wr where "wr = (snd (release ns wm))\<lparr>trace := trace (snd (release ns wm)) @ [?R]\<rparr>"
  note rw = released_world [OF nsfl(1), of wm]
  have r1': "wr = (snd (release ns wm))\<lparr>trace := trace (snd (release ns wm)) @ [?R]\<rparr>"
    by (rule wr_def)
  have r2': "trace wr = trace w @ released_events ns (arrays wr) ?reuse @ [?R]"
    using rw(1) wmf by (simp add: wr_def)
  have r3': "seriesEntrySlicePool wr = snd (pool_Get (seriesEntrySlicePool w) pick) @ [?reuse]"
    using rw(2) wmf by (simp add: wr_def)
  have r4': "len ?reuse = 0" by (rule len_truncate0)
  have r5': "\<forall>e \<in> set (elems (series ns)).
             elems_chunks (arrays wr) (chks e)
               = replicate (length (elems_chunks (arrays wm) (chks e))) AggrChunk_zero"
    using rw(4) by (simp add: wr_def)
  have failed: "current c1 = current c \<Longrightarrow>
         \<not> False \<longrightarrow>
         current c1 = current c
       \<and> wr = (snd (release ns wm))\<lparr>trace := trace (snd (release ns wm)) @ [?R]\<rparr>
       \<and> trace wr = trace w @ released_events ns (arrays wr) ?reuse @ [?R]
       \<and> seriesEntrySlicePool wr = snd (pool_Get (seriesEntrySlicePool w) pick) @ [?reuse]
       \<and> len ?reuse = 0
       \<and> (\<forall>e \<in> set (elems (series ns)).
             elems_chunks (arrays wr) (chks e)
               = replicate (length (elems_chunks (arrays wm) (chks e))) AggrChunk_zero)"
    for c1
    using r1' r2' r3' r4' r5' by (intro impI conjI)
  show ?thesis
  proof (cases e1)
    case (Some x)
    let ?c1 = "c\<lparr>from_refs := u', chunkReaders := r1,
                 err := Some (Wrapped x ''preloading chunks'')\<rparr>"
    from Some have ns1: "ns = ns1" and wm1: "wm = ?w0\<lparr>arrays := mem1\<rparr>"
      by (simp_all add: ns_def wm_def)
    have ne: "err ?c1 \<noteq> None" by simp
    from nb Some have "loadingSeriesChunksSetIterator_Next refs rd pick c w
        = Inr (False, ?c1, deferred False ?c1 ns1 (it_At refs u') (?w0\<lparr>arrays := mem1\<rparr>))"
      by simp
    also have "deferred False ?c1 ns1 (it_At refs u') (?w0\<lparr>arrays := mem1\<rparr>) = wr"
      unfolding deferred_error [OF ne] wr_def ns1 wm1 ..
    finally have p1: "loadingSeriesChunksSetIterator_Next refs rd pick c w = Inr (False, ?c1, wr)" .
    have p2: "from_refs ?c1 = u'" by simp
    from Some have p8: "\<forall>e. e1 = Some e \<longrightarrow>
        \<not> False \<and> err ?c1 = Some (Wrapped e ''preloading chunks'')"
      by simp
    from Some have p9: "e1 = None \<longrightarrow>
         list_all2 (chunk_fidelity mem1) ?U (elems (series ns1))
       \<and> (\<forall>e. e2 = Some e \<longrightarrow> \<not> False \<and> err ?c1 = Some (Wrapped e ''loading chunks''))
       \<and> (e2 = None \<longrightarrow>
             False
           \<and> current ?c1 = ns\<lparr>chunksReleaser := Some (BatchBytes (batches w))\<rparr>
           \<and> arrays wr = mem2)"
      by simp
    have p13: "\<not> False \<longrightarrow>
         current ?c1 = current c
       \<and> wr = (snd (release ns wm))\<lparr>trace := trace (snd (release ns wm)) @ [?R]\<rparr>
       \<and> trace wr = trace w @ released_events ns (arrays wr) ?reuse @ [?R]
       \<and> seriesEntrySlicePool wr = snd (pool_Get (seriesEntrySlicePool w) pick) @ [?reuse]
       \<and> len ?reuse = 0
       \<and> (\<forall>e \<in> set (elems (series ns)).
             elems_chunks (arrays wr) (chks e)
               = replicate (length (elems_chunks (arrays wm) (chks e))) AggrChunk_zero)"
      by (rule failed) simp
    have p14: "False \<longrightarrow>
         err ?c1 = None
       \<and> chunksReleaser (current ?c1) = Some (BatchBytes (batches w))
       \<and> wr = wm\<lparr>trace := trace w @ [?R]\<rparr>
       \<and> seriesEntrySlicePool wr = snd (pool_Get (seriesEntrySlicePool w) pick)
       \<and> trace wr = trace w @ [?R]"
      by simp
    show ?thesis
      apply (rule exI [of _ False], rule exI [of _ ?c1], rule exI [of _ wr])
      apply (rule exI [of _ ?ns0], rule exI [of _ "Slice b (length ?U)"])
      apply (rule exI [of _ e1], rule exI [of _ ns1], rule exI [of _ r1], rule exI [of _ mem1])
      apply (rule exI [of _ e2], rule exI [of _ r2], rule exI [of _ b2], rule exI [of _ mem2])
      apply (rule exI [of _ ns], rule exI [of _ wm])
      using p1 p2 new st cv slots ld p8 p9 ns_def wm_def nsfl p13 p14
      by (intro conjI)
  next
    case None
    from cv None have cv':
      "convert rd 0 ?U (?ns0\<lparr>series := Slice b (length ?U)\<rparr>) (cr_reset rd (chunkReaders c))
         (arrays w) = Inr (None, ns1, r1, mem1)"
      by simp
    from converted_fidelity [OF st cv']
    have fid: "list_all2 (chunk_fidelity mem1) ?U (elems (series ns1))" .
    from None have ns2: "ns = ns1\<lparr>series := with_backing (series ns1) b2\<rparr>"
      and wm2: "wm = ?w0\<lparr>batches := Suc (batches w), arrays := mem2\<rparr>"
      by (simp_all add: ns_def wm_def)
    show ?thesis
    proof (cases e2)
      case (Some x)
      let ?c1 = "c\<lparr>from_refs := u', chunkReaders := r2,
                   err := Some (Wrapped x ''loading chunks'')\<rparr>"
      have ne: "err ?c1 \<noteq> None" by simp
      from nb None Some have "loadingSeriesChunksSetIterator_Next refs rd pick c w
          = Inr (False, ?c1,
                 deferred False ?c1 (ns1\<lparr>series := with_backing (series ns1) b2\<rparr>)
                   (it_At refs u') (?w0\<lparr>batches := Suc (batches ?w0), arrays := mem2\<rparr>))"
        by simp
      also have "deferred False ?c1 (ns1\<lparr>series := with_backing (series ns1) b2\<rparr>)
                   (it_At refs u') (?w0\<lparr>batches := Suc (batches ?w0), arrays := mem2\<rparr>) = wr"
        unfolding deferred_error [OF ne] wr_def ns2 wm2 by simp
      finally have p1: "loadingSeriesChunksSetIterator_Next refs rd pick c w
                          = Inr (False, ?c1, wr)" .
      have p2: "from_refs ?c1 = u'" by simp
      from None have p8: "\<forall>e. e1 = Some e \<longrightarrow>
          \<not> False \<and> err ?c1 = Some (Wrapped e ''preloading chunks'')"
        by simp
      from Some fid have p9: "e1 = None \<longrightarrow>
           list_all2 (chunk_fidelity mem1) ?U (elems (series ns1))
         \<and> (\<forall>e. e2 = Some e \<longrightarrow> \<not> False \<and> err ?c1 = Some (Wrapped e ''loading chunks''))
         \<and> (e2 = None \<longrightarrow>
               False
             \<and> current ?c1 = ns\<lparr>chunksReleaser := Some (BatchBytes (batches w))\<rparr>
             \<and> arrays wr = mem2)"
        by simp
      have p13: "\<not> False \<longrightarrow>
           current ?c1 = current c
         \<and> wr = (snd (release ns wm))\<lparr>trace := trace (snd (release ns wm)) @ [?R]\<rparr>
         \<and> trace wr = trace w @ released_events ns (arrays wr) ?reuse @ [?R]
         \<and> seriesEntrySlicePool wr = snd (pool_Get (seriesEntrySlicePool w) pick) @ [?reuse]
         \<and> len ?reuse = 0
         \<and> (\<forall>e \<in> set (elems (series ns)).
               elems_chunks (arrays wr) (chks e)
                 = replicate (length (elems_chunks (arrays wm) (chks e))) AggrChunk_zero)"
        by (rule failed) simp
      have p14: "False \<longrightarrow>
           err ?c1 = None
         \<and> chunksReleaser (current ?c1) = Some (BatchBytes (batches w))
         \<and> wr = wm\<lparr>trace := trace w @ [?R]\<rparr>
         \<and> seriesEntrySlicePool wr = snd (pool_Get (seriesEntrySlicePool w) pick)
         \<and> trace wr = trace w @ [?R]"
        by simp
      show ?thesis
        apply (rule exI [of _ False], rule exI [of _ ?c1], rule exI [of _ wr])
        apply (rule exI [of _ ?ns0], rule exI [of _ "Slice b (length ?U)"])
        apply (rule exI [of _ e1], rule exI [of _ ns1], rule exI [of _ r1], rule exI [of _ mem1])
        apply (rule exI [of _ e2], rule exI [of _ r2], rule exI [of _ b2], rule exI [of _ mem2])
        apply (rule exI [of _ ns], rule exI [of _ wm])
        using p1 p2 new st cv slots ld p8 p9 ns_def wm_def nsfl p13 p14
        by (intro conjI)
    next
      case None2: None
      let ?ns2 = "ns1\<lparr>series := with_backing (series ns1) b2,
                     chunksReleaser := Some (BatchBytes (batches ?w0))\<rparr>"
      let ?c1 = "c\<lparr>from_refs := u', chunkReaders := r2, current := ?ns2\<rparr>"
      let ?wp = "wm\<lparr>trace := trace w @ [?R]\<rparr>"
      from nb None None2 have "loadingSeriesChunksSetIterator_Next refs rd pick c w
          = Inr (True, ?c1,
                 deferred True ?c1 ?ns2 (it_At refs u')
                   (?w0\<lparr>batches := Suc (batches ?w0), arrays := mem2\<rparr>))"
        by simp
      also have "deferred True ?c1 ?ns2 (it_At refs u')
                   (?w0\<lparr>batches := Suc (batches ?w0), arrays := mem2\<rparr>) = ?wp"
        unfolding deferred_published wm2 by simp
      finally have p1: "loadingSeriesChunksSetIterator_Next refs rd pick c w
                          = Inr (True, ?c1, ?wp)" .
      have p2: "from_refs ?c1 = u'" by simp
      from None have p8: "\<forall>e. e1 = Some e \<longrightarrow>
          \<not> True \<and> err ?c1 = Some (Wrapped e ''preloading chunks'')"
        by simp
      from None2 fid ns2 wm2 have p9: "e1 = None \<longrightarrow>
           list_all2 (chunk_fidelity mem1) ?U (elems (series ns1))
         \<and> (\<forall>e. e2 = Some e \<longrightarrow> \<not> True \<and> err ?c1 = Some (Wrapped e ''loading chunks''))
         \<and> (e2 = None \<longrightarrow>
               True
             \<and> current ?c1 = ns\<lparr>chunksReleaser := Some (BatchBytes (batches w))\<rparr>
             \<and> arrays ?wp = mem2)"
        by simp
      have p13: "\<not> True \<longrightarrow>
           current ?c1 = current c
         \<and> ?wp = (snd (release ns wm))\<lparr>trace := trace (snd (release ns wm)) @ [?R]\<rparr>
         \<and> trace ?wp = trace w
              @ released_events ns (arrays ?wp)
                  (truncate0 (fst (reset_series (series ns) (arrays wm))))
              @ [?R]
         \<and> seriesEntrySlicePool ?wp
              = snd (pool_Get (seriesEntrySlicePool w) pick)
                @ [truncate0 (fst (reset_series (series ns) (arrays wm)))]
         \<and> len (truncate0 (fst (reset_series (series ns) (arrays wm)))) = 0
         \<and> (\<forall>e \<in> set (elems (series ns)).
               elems_chunks (arrays ?wp) (chks e)
                 = replicate (length (elems_chunks (arrays wm) (chks e))) AggrChunk_zero)"
        by simp
      from e wmf have p14: "True \<longrightarrow>
           err ?c1 = None
         \<and> chunksReleaser (current ?c1) = Some (BatchBytes (batches w))
         \<and> ?wp = wm\<lparr>trace := trace w @ [?R]\<rparr>
         \<and> seriesEntrySlicePool ?wp = snd (pool_Get (seriesEntrySlicePool w) pick)
         \<and> trace ?wp = trace w @ [?R]"
        by simp
      show ?thesis
        apply (rule exI [of _ True], rule exI [of _ ?c1], rule exI [of _ ?wp])
        apply (rule exI [of _ ?ns0], rule exI [of _ "Slice b (length ?U)"])
        apply (rule exI [of _ e1], rule exI [of _ ns1], rule exI [of _ r1], rule exI [of _ mem1])
        apply (rule exI [of _ e2], rule exI [of _ r2], rule exI [of _ b2], rule exI [of _ mem2])
        apply (rule exI [of _ ns], rule exI [of _ wm])
        using p1 p2 new st cv slots ld p8 p9 ns_def wm_def nsfl p13 p14
        by (intro conjI)
    qed
  qed
qed

text \<open>
  C2: a latched error makes \<open>Next\<close> return false with the iterator, its upstream
  included, and the world as they are. With no latched error, an upstream that returns
  false has its error (or \<open>nil\<close>) latched and \<open>Next\<close> returns false. With a batch from
  the upstream, over a pool as \<open>release\<close> leaves it, \<open>Next\<close> returns. The output set is
  the one that \<open>newSeriesChunksSet\<close> returned, expanded to the length of the batch and
  filled by the conversion loop; it is releasable, has no chunks releaser yet, and has a
  slab pool as soon as the batch has a series. The first error of \<open>addLoad\<close> over the
  chunk references in order, or else the error of \<open>load\<close> on the converted series, is
  latched wrapped and \<open>Next\<close> returns false; it returns true when there is neither.
  Whenever it returns false here, \<open>current\<close> is the one from before, and the world is the
  one that \<open>release\<close> of the output set leaves (the set as the loop left it, or as \<open>load\<close>
  left it), followed by the release of the reference batch: the slab pool of the output
  set is given back and its series slice, cut to length 0, is put into the pool, in this
  order and before the reference batch is released, and every chunk of the output set is
  reset. When it returns true nothing has been put into the pool, and the set that
  becomes \<open>current\<close> is the output set with the batch releaser.
\<close>

theorem loadingSeriesChunksSetIterator_Next_errors:
  "(err c \<noteq> None \<longrightarrow>
      loadingSeriesChunksSetIterator_Next refs rd pick c w = Inr (False, c, w))
 \<and> (\<forall>u'. err c = None \<and> it_Next refs (from_refs c) = (False, u') \<longrightarrow>
      loadingSeriesChunksSetIterator_Next refs rd pick c w
        = Inr (False, c\<lparr>from_refs := u', err := it_Err refs u'\<rparr>, w))
 \<and> (\<forall>u'. err c = None \<and> it_Next refs (from_refs c) = (True, u') \<and> pool_lengths_zero w \<longrightarrow>
      (\<exists>ok c' w' ns0 s e1 ns1 r1 mem1 e2 r2 b2 mem2 ns wm.
           loadingSeriesChunksSetIterator_Next refs rd pick c w = Inr (ok, c', w')
         \<and> from_refs c' = u'
         \<and> newSeriesChunksSet (max (fromBatchSize c) (int (length (series_refs (it_At refs u')))))
              True pick w
              = Inr (ns0, w\<lparr>seriesEntrySlicePool := snd (pool_Get (seriesEntrySlicePool w) pick)\<rparr>)
         \<and> slice_to (series ns0) (int (length (series_refs (it_At refs u')))) = Inr s
         \<and> convert rd 0 (series_refs (it_At refs u')) (ns0\<lparr>series := s\<rparr>)
              (cr_reset rd (chunkReaders c)) (arrays w) = Inr (e1, ns1, r1, mem1)
         \<and> addLoad_all rd (cr_reset rd (chunkReaders c))
              (batch_slots 0 (series_refs (it_At refs u'))) = (e1, r1)
         \<and> cr_load rd r1 (series ns1) (BatchBytes (batches w)) mem1 = (e2, r2, b2, mem2)
         \<and> (\<forall>e. e1 = Some e \<longrightarrow> \<not> ok \<and> err c' = Some (Wrapped e ''preloading chunks''))
         \<and> (e1 = None \<longrightarrow>
               list_all2 (chunk_fidelity mem1) (series_refs (it_At refs u')) (elems (series ns1))
             \<and> (\<forall>e. e2 = Some e \<longrightarrow> \<not> ok \<and> err c' = Some (Wrapped e ''loading chunks''))
             \<and> (e2 = None \<longrightarrow>
                   ok
                 \<and> current c' = ns\<lparr>chunksReleaser := Some (BatchBytes (batches w))\<rparr>
                 \<and> arrays w' = mem2))
         \<and> ns = (if e1 = None then ns1\<lparr>series := with_backing (series ns1) b2\<rparr> else ns1)
         \<and> wm = (if e1 = None
                  then w\<lparr>seriesEntrySlicePool := snd (pool_Get (seriesEntrySlicePool w) pick),
                         batches := Suc (batches w), arrays := mem2\<rparr>
                  else w\<lparr>seriesEntrySlicePool := snd (pool_Get (seriesEntrySlicePool w) pick),
                         arrays := mem1\<rparr>)
         \<and> seriesReleasable ns
         \<and> chunksReleaser ns = None
         \<and> (series_refs (it_At refs u') \<noteq> [] \<longrightarrow> seriesChunksPool ns \<noteq> None)
         \<and> (\<not> ok \<longrightarrow>
               current c' = current c
             \<and> w' = (snd (release ns wm))
                      \<lparr>trace := trace (snd (release ns wm)) @ [RefsSet_release (it_At refs u')]\<rparr>
             \<and> trace w' = trace w
                  @ released_events ns (arrays w')
                      (truncate0 (fst (reset_series (series ns) (arrays wm))))
                  @ [RefsSet_release (it_At refs u')]
             \<and> seriesEntrySlicePool w'
                  = snd (pool_Get (seriesEntrySlicePool w) pick)
                    @ [truncate0 (fst (reset_series (series ns) (arrays wm)))]
             \<and> len (truncate0 (fst (reset_series (series ns) (arrays wm)))) = 0
             \<and> (\<forall>e \<in> set (elems (series ns)).
                   elems_chunks (arrays w') (chks e)
                     = replicate (length (elems_chunks (arrays wm) (chks e))) AggrChunk_zero))
         \<and> (ok \<longrightarrow>
               err c' = None
             \<and> chunksReleaser (current c') = Some (BatchBytes (batches w))
             \<and> w' = wm\<lparr>trace := trace w @ [RefsSet_release (it_At refs u')]\<rparr>
             \<and> seriesEntrySlicePool w' = snd (pool_Get (seriesEntrySlicePool w) pick)
             \<and> trace w' = trace w @ [RefsSet_release (it_At refs u')])))"
proof (intro conjI impI allI)
  assume "err c \<noteq> None"
  then show "loadingSeriesChunksSetIterator_Next refs rd pick c w = Inr (False, c, w)"
    by (rule Next_latched)
next
  fix u' assume "err c = None \<and> it_Next refs (from_refs c) = (False, u')"
  then show "loadingSeriesChunksSetIterator_Next refs rd pick c w
        = Inr (False, c\<lparr>from_refs := u', err := it_Err refs u'\<rparr>, w)"
    by (simp add: Next_exhausted)
next
  fix u'
  assume a: "err c = None \<and> it_Next refs (from_refs c) = (True, u') \<and> pool_lengths_zero w"
  then have "err c = None" "it_Next refs (from_refs c) = (True, u')" "pool_lengths_zero w"
    by simp_all
  then show "\<exists>ok c' w' ns0 s e1 ns1 r1 mem1 e2 r2 b2 mem2 ns wm.
             loadingSeriesChunksSetIterator_Next refs rd pick c w = Inr (ok, c', w')
           \<and> from_refs c' = u'
           \<and> newSeriesChunksSet (max (fromBatchSize c) (int (length (series_refs (it_At refs u')))))
                True pick w
                = Inr (ns0, w\<lparr>seriesEntrySlicePool := snd (pool_Get (seriesEntrySlicePool w) pick)\<rparr>)
           \<and> slice_to (series ns0) (int (length (series_refs (it_At refs u')))) = Inr s
           \<and> convert rd 0 (series_refs (it_At refs u')) (ns0\<lparr>series := s\<rparr>)
                (cr_reset rd (chunkReaders c)) (arrays w) = Inr (e1, ns1, r1, mem1)
           \<and> addLoad_all rd (cr_reset rd (chunkReaders c))
                (batch_slots 0 (series_refs (it_At refs u'))) = (e1, r1)
           \<and> cr_load rd r1 (series ns1) (BatchBytes (batches w)) mem1 = (e2, r2, b2, mem2)
           \<and> (\<forall>e. e1 = Some e \<longrightarrow> \<not> ok \<and> err c' = Some (Wrapped e ''preloading chunks''))
           \<and> (e1 = None \<longrightarrow>
                 list_all2 (chunk_fidelity mem1) (series_refs (it_At refs u')) (elems (series ns1))
               \<and> (\<forall>e. e2 = Some e \<longrightarrow> \<not> ok \<and> err c' = Some (Wrapped e ''loading chunks''))
               \<and> (e2 = None \<longrightarrow>
                     ok
                   \<and> current c' = ns\<lparr>chunksReleaser := Some (BatchBytes (batches w))\<rparr>
                   \<and> arrays w' = mem2))
           \<and> ns = (if e1 = None then ns1\<lparr>series := with_backing (series ns1) b2\<rparr> else ns1)
           \<and> wm = (if e1 = None
                    then w\<lparr>seriesEntrySlicePool := snd (pool_Get (seriesEntrySlicePool w) pick),
                           batches := Suc (batches w), arrays := mem2\<rparr>
                    else w\<lparr>seriesEntrySlicePool := snd (pool_Get (seriesEntrySlicePool w) pick),
                           arrays := mem1\<rparr>)
           \<and> seriesReleasable ns
           \<and> chunksReleaser ns = None
           \<and> (series_refs (it_At refs u') \<noteq> [] \<longrightarrow> seriesChunksPool ns \<noteq> None)
           \<and> (\<not> ok \<longrightarrow>
                 current c' = current c
               \<and> w' = (snd (release ns wm))
                        \<lparr>trace := trace (snd (release ns wm)) @ [RefsSet_release (it_At refs u')]\<rparr>
               \<and> trace w' = trace w
                    @ released_events ns (arrays w')
                        (truncate0 (fst (reset_series (series ns) (arrays wm))))
                    @ [RefsSet_release (it_At refs u')]
               \<and> seriesEntrySlicePool w'
                    = snd (pool_Get (seriesEntrySlicePool w) pick)
                      @ [truncate0 (fst (reset_series (series ns) (arrays wm)))]
               \<and> len (truncate0 (fst (reset_series (series ns) (arrays wm)))) = 0
               \<and> (\<forall>e \<in> set (elems (series ns)).
                     elems_chunks (arrays w') (chks e)
                       = replicate (length (elems_chunks (arrays wm) (chks e))) AggrChunk_zero))
           \<and> (ok \<longrightarrow>
                 err c' = None
               \<and> chunksReleaser (current c') = Some (BatchBytes (batches w))
               \<and> w' = wm\<lparr>trace := trace w @ [RefsSet_release (it_At refs u')]\<rparr>
               \<and> seriesEntrySlicePool w' = snd (pool_Get (seriesEntrySlicePool w) pick)
               \<and> trace w' = trace w @ [RefsSet_release (it_At refs u')])"
    by (rule Next_batch_outcome)
qed

lemma example_load_keeps_bounds: "load_keeps_bounds example_readers"
proof -
  have chunks: "elems_chunks (map (map fill_chunk) mem) h = map fill_chunk (elems_chunks mem h)"
    for mem h
    by (cases h) (simp_all add: take_map)
  have entry: "same_bounds mem (map (map fill_chunk) mem) e e" for mem e
    by (simp add: same_bounds_def chunks fill_chunk_def comp_def)
  have "elems (with_backing s (backing s)) = elems s" for s :: "seriesEntry slice"
    by (cases s) simp_all
  then show ?thesis
    by (simp add: load_keeps_bounds_def example_readers_def entry list_all2_refl)
qed

lemma example_first_Next:
  "loadingSeriesChunksSetIterator_Next two_batches example_readers None
     (newLoadingSeriesChunksSetIterator [] 0 1) empty_world
   = Inr (True,
          \<lparr>chunkReaders = [(0, 0)], from_refs = 1, fromBatchSize = 1,
           current = loaded_good_batch, err = None\<rparr>,
          loaded_world)"
  by (simp add: loadingSeriesChunksSetIterator_Next_def newLoadingSeriesChunksSetIterator_def
        two_batches_def example_readers_def good_batch_def empty_world_def
        newSeriesChunksSet_def pool_Get_def make_slice_def seriesEntry_zero_def
        convert.simps addLoads.simps update_slice_def newSeriesAggrChunkSlice_def
        SlabPool_Get_def NewSlabPool_def seriesChunksSlabSize_def deferred_def
        loaded_good_batch_def loaded_world_def fill_chunk_def AggrChunk_zero_def
        numeral_2_eq_2 Let_def)

theorem loadingSeriesChunksSetIterator_Next_fidelity_witness:
  "load_keeps_bounds example_readers
   \<and> loadingSeriesChunksSetIterator_Next two_batches example_readers None
        (newLoadingSeriesChunksSetIterator [] 0 1) empty_world
      = Inr (True,
          \<lparr>chunkReaders = [(0, 0)], from_refs = 1, fromBatchSize = 1,
           current = loaded_good_batch, err = None\<rparr>,
          loaded_world)
   \<and> list_all2 (chunk_fidelity (arrays loaded_world)) (series_refs good_batch)
        (elems (series loaded_good_batch))
   \<and> length (elems (series loaded_good_batch)) = 2
   \<and> elems_chunks (arrays loaded_world) (AggrChunks 0 1 1)
        = [AggrChunk_zero\<lparr>MinTime := 0, MaxTime := 100, Raw := Some [170]\<rparr>]"
proof -
  from loadingSeriesChunksSetIterator_Next_fidelity
          [OF example_first_Next example_load_keeps_bounds]
  have "list_all2 (chunk_fidelity (arrays loaded_world)) (series_refs good_batch)
        (elems (series loaded_good_batch))
      \<and> length (elems (series loaded_good_batch)) = 2"
    by (simp add: loadingSeriesChunksSetIterator_At_def two_batches_def good_batch_def)
  moreover have "elems_chunks (arrays loaded_world) (AggrChunks 0 1 1)
        = [AggrChunk_zero\<lparr>MinTime := 0, MaxTime := 100, Raw := Some [170]\<rparr>]"
    by (simp add: loaded_world_def)
  ultimately show ?thesis
    using example_first_Next example_load_keeps_bounds by simp
qed

text \<open>The world after the loader has failed on \<open>bad_batch\<close>.\<close>

lemma example_second_Next:
  "loadingSeriesChunksSetIterator_Next two_batches example_readers None
     \<lparr>chunkReaders = [(0, 0)], from_refs = 1, fromBatchSize = 1,
      current = loaded_good_batch, err = None\<rparr>
     loaded_world
   = Inr (False,
          \<lparr>chunkReaders = [(0, 0)], from_refs = 2, fromBatchSize = 1,
           current = loaded_good_batch,
           err = Some (Wrapped (Error ''no block'') ''preloading chunks'')\<rparr>,
          \<lparr>seriesEntrySlicePool = [Slice [seriesEntry_zero] 0],
           trace = [RefsSet_release good_batch,
                    SlabPool_Release \<lparr>slabSize = 1000, carved = [1]\<rparr>
                      [[AggrChunk_zero\<lparr>MinTime := 0, MaxTime := 100, Raw := Some [170]\<rparr>], [],
                       [AggrChunk_zero]],
                    SeriesEntrySlicePool_Put (Slice [seriesEntry_zero] 0),
                    RefsSet_release bad_batch],
           batches = 1,
           arrays = [[AggrChunk_zero\<lparr>MinTime := 0, MaxTime := 100, Raw := Some [170]\<rparr>], [],
                     [AggrChunk_zero]]\<rparr>)"
  by (simp add: loadingSeriesChunksSetIterator_Next_def
        two_batches_def example_readers_def bad_batch_def loaded_world_def
        newSeriesChunksSet_def pool_Get_def make_slice_def seriesEntry_zero_def
        convert.simps addLoads.simps update_slice_def newSeriesAggrChunkSlice_def
        SlabPool_Get_def NewSlabPool_def seriesChunksSlabSize_def deferred_def
        release_def pool_Put_def errors_Wrap_def Reset_def store_chunk_def Let_def)

theorem loadingSeriesChunksSetIterator_Next_errors_witness:
  "(\<exists>ns wm. seriesReleasable ns \<and> seriesChunksPool ns \<noteq> None
        \<and> \<lparr>seriesEntrySlicePool = [Slice [seriesEntry_zero] 0],
           trace = [RefsSet_release good_batch,
                    SlabPool_Release \<lparr>slabSize = 1000, carved = [1]\<rparr>
                      [[AggrChunk_zero\<lparr>MinTime := 0, MaxTime := 100, Raw := Some [170]\<rparr>], [],
                       [AggrChunk_zero]],
                    SeriesEntrySlicePool_Put (Slice [seriesEntry_zero] 0),
                    RefsSet_release bad_batch],
           batches = 1,
           arrays = [[AggrChunk_zero\<lparr>MinTime := 0, MaxTime := 100, Raw := Some [170]\<rparr>], [],
                     [AggrChunk_zero]]\<rparr>
            = (snd (release ns wm))
                \<lparr>trace := trace (snd (release ns wm)) @ [RefsSet_release (it_At two_batches 2)]\<rparr>
        \<and> trace \<lparr>seriesEntrySlicePool = [Slice [seriesEntry_zero] 0],
           trace = [RefsSet_release good_batch,
                    SlabPool_Release \<lparr>slabSize = 1000, carved = [1]\<rparr>
                      [[AggrChunk_zero\<lparr>MinTime := 0, MaxTime := 100, Raw := Some [170]\<rparr>], [],
                       [AggrChunk_zero]],
                    SeriesEntrySlicePool_Put (Slice [seriesEntry_zero] 0),
                    RefsSet_release bad_batch],
           batches = 1,
           arrays = [[AggrChunk_zero\<lparr>MinTime := 0, MaxTime := 100, Raw := Some [170]\<rparr>], [],
                     [AggrChunk_zero]]\<rparr>
            = trace loaded_world
              @ released_events ns (arrays \<lparr>seriesEntrySlicePool = [Slice [seriesEntry_zero] 0],
           trace = [RefsSet_release good_batch,
                    SlabPool_Release \<lparr>slabSize = 1000, carved = [1]\<rparr>
                      [[AggrChunk_zero\<lparr>MinTime := 0, MaxTime := 100, Raw := Some [170]\<rparr>], [],
                       [AggrChunk_zero]],
                    SeriesEntrySlicePool_Put (Slice [seriesEntry_zero] 0),
                    RefsSet_release bad_batch],
           batches = 1,
           arrays = [[AggrChunk_zero\<lparr>MinTime := 0, MaxTime := 100, Raw := Some [170]\<rparr>], [],
                     [AggrChunk_zero]]\<rparr>)
                  (truncate0 (fst (reset_series (series ns) (arrays wm))))
              @ [RefsSet_release (it_At two_batches 2)])
   \<and> pool_lengths_zero loaded_world
   \<and> it_Next two_batches 1 = (True, 2)
   \<and> loadingSeriesChunksSetIterator_Next two_batches example_readers None
        \<lparr>chunkReaders = [(0, 0)], from_refs = 1, fromBatchSize = 1,
         current = loaded_good_batch, err = None\<rparr>
        loaded_world
      = Inr (False,
          \<lparr>chunkReaders = [(0, 0)], from_refs = 2, fromBatchSize = 1,
         current = loaded_good_batch,
         err = Some (Wrapped (Error ''no block'') ''preloading chunks'')\<rparr>,
          \<lparr>seriesEntrySlicePool = [Slice [seriesEntry_zero] 0],
           trace = [RefsSet_release good_batch,
                    SlabPool_Release \<lparr>slabSize = 1000, carved = [1]\<rparr>
                      [[AggrChunk_zero\<lparr>MinTime := 0, MaxTime := 100, Raw := Some [170]\<rparr>], [],
                       [AggrChunk_zero]],
                    SeriesEntrySlicePool_Put (Slice [seriesEntry_zero] 0),
                    RefsSet_release bad_batch],
           batches = 1,
           arrays = [[AggrChunk_zero\<lparr>MinTime := 0, MaxTime := 100, Raw := Some [170]\<rparr>], [],
                     [AggrChunk_zero]]\<rparr>)
   \<and> loadingSeriesChunksSetIterator_Next two_batches example_readers None
        \<lparr>chunkReaders = [(0, 0)], from_refs = 2, fromBatchSize = 1,
         current = loaded_good_batch,
         err = Some (Wrapped (Error ''no block'') ''preloading chunks'')\<rparr>
        \<lparr>seriesEntrySlicePool = [Slice [seriesEntry_zero] 0], trace = [], batches = 1,
         arrays = []\<rparr>
      = Inr (False,
          \<lparr>chunkReaders = [(0, 0)], from_refs = 2, fromBatchSize = 1,
         current = loaded_good_batch,
         err = Some (Wrapped (Error ''no block'') ''preloading chunks'')\<rparr>,
          \<lparr>seriesEntrySlicePool = [Slice [seriesEntry_zero] 0], trace = [], batches = 1,
         arrays = []\<rparr>)"
proof -
  let ?c1 = "\<lparr>chunkReaders = [(0::int, 0::int)], from_refs = 1::nat, fromBatchSize = 1,
         current = loaded_good_batch, err = None\<rparr>"
  let ?c2 = "\<lparr>chunkReaders = [(0::int, 0::int)], from_refs = 2::nat, fromBatchSize = 1,
         current = loaded_good_batch,
         err = Some (Wrapped (Error ''no block'') ''preloading chunks'')\<rparr>"
  let ?w = "\<lparr>seriesEntrySlicePool = [Slice [seriesEntry_zero] 0], trace = [], batches = 1,
         arrays = []\<rparr>"
  let ?w2 = "\<lparr>seriesEntrySlicePool = [Slice [seriesEntry_zero] 0],
           trace = [RefsSet_release good_batch,
                    SlabPool_Release \<lparr>slabSize = 1000, carved = [1]\<rparr>
                      [[AggrChunk_zero\<lparr>MinTime := 0, MaxTime := 100, Raw := Some [170]\<rparr>], [],
                       [AggrChunk_zero]],
                    SeriesEntrySlicePool_Put (Slice [seriesEntry_zero] 0),
                    RefsSet_release bad_batch],
           batches = 1,
           arrays = [[AggrChunk_zero\<lparr>MinTime := 0, MaxTime := 100, Raw := Some [170]\<rparr>], [],
                     [AggrChunk_zero]]\<rparr>"
  have hyp: "err ?c1 = None \<and> it_Next two_batches (from_refs ?c1) = (True, 2)
      \<and> pool_lengths_zero loaded_world"
    by (simp add: pool_lengths_zero_def two_batches_def loaded_world_def)
  have ne: "series_refs (it_At two_batches 2) \<noteq> []"
    by (simp add: two_batches_def bad_batch_def)
  note batch = loadingSeriesChunksSetIterator_Next_errors
      [of ?c1 two_batches example_readers None loaded_world,
        THEN conjunct2, THEN conjunct2, THEN spec [where x = 2], THEN mp, OF hyp]
  from batch have released: "(\<exists>ns wm. seriesReleasable ns \<and> seriesChunksPool ns \<noteq> None
        \<and> ?w2
            = (snd (release ns wm))
                \<lparr>trace := trace (snd (release ns wm)) @ [RefsSet_release (it_At two_batches 2)]\<rparr>
        \<and> trace ?w2
            = trace loaded_world
              @ released_events ns (arrays ?w2)
                  (truncate0 (fst (reset_series (series ns) (arrays wm))))
              @ [RefsSet_release (it_At two_batches 2)])"
    apply (elim exE conjE)
    subgoal premises p for ok c' w' ns0 s e1 ns1 r1 mem1 e2 r2 b2 mem2 ns wm
    proof -
      from p(1) example_second_Next have ok: "\<not> ok" and w': "w' = ?w2"
        by simp_all
      note f = p(15) [THEN mp, OF ok]
      note pn = p(14) [THEN mp, OF ne]
      show ?thesis
        apply (rule exI [of _ ns], rule exI [of _ wm])
        using p(12) pn f [THEN conjunct2, THEN conjunct1, unfolded w']
          f [THEN conjunct2, THEN conjunct2, THEN conjunct1, unfolded w']
        by (intro conjI)
    qed
    done
  from loadingSeriesChunksSetIterator_Next_errors [of ?c2 two_batches example_readers None ?w]
  have "err ?c2 \<noteq> None \<longrightarrow>
      loadingSeriesChunksSetIterator_Next two_batches example_readers None ?c2 ?w
        = Inr (False, ?c2, ?w)"
    by (rule conjunct1)
  then have "loadingSeriesChunksSetIterator_Next two_batches example_readers None ?c2 ?w
        = Inr (False, ?c2, ?w)"
    by simp
  with example_second_Next have rest: "pool_lengths_zero loaded_world
   \<and> it_Next two_batches 1 = (True, 2)
   \<and> loadingSeriesChunksSetIterator_Next two_batches example_readers None
        ?c1
        loaded_world
      = Inr (False,
          ?c2,
          ?w2)
   \<and> loadingSeriesChunksSetIterator_Next two_batches example_readers None
        ?c2
        ?w
      = Inr (False,
          ?c2,
          ?w)"
    by (simp add: pool_lengths_zero_def two_batches_def loaded_world_def)
  from released rest show ?thesis by (rule conjI)
qed

section \<open>Idempotent exhaustion\<close>

lemma Next_false_stopped:
  assumes "loadingSeriesChunksSetIterator_Next refs rd pick c w = Inr (False, c', w')"
  shows "stopped refs c'"
proof (cases "err c = None")
  case False
  with assms Next_latched [of c refs rd pick w] show ?thesis
    by (simp add: stopped_def)
next
  case True
  obtain ok u' where nx: "it_Next refs (from_refs c) = (ok, u')"
    by (cases "it_Next refs (from_refs c)")
  show ?thesis
  proof (cases ok)
    case False
    with True nx assms have c': "c' = c\<lparr>from_refs := u', err := it_Err refs u'\<rparr>"
      by (simp add: Next_exhausted)
    show ?thesis
    proof (cases "it_Err refs u'")
      case None
      with c' nx False show ?thesis by (auto simp add: stopped_def)
    next
      case (Some x)
      with c' show ?thesis by (simp add: stopped_def)
    qed
  next
    case ok: True
    with nx have nx': "it_Next refs (from_refs c) = (True, u')" by simp
    from Next_batch_InrD [OF True nx' assms]
    obtain ns0 w0 s e1 ns1 r1 mem1 e2 r2 b2 mem2 where
      "newSeriesChunksSet (max (fromBatchSize c) (int (length (series_refs (it_At refs u')))))
             True pick w = Inr (ns0, w0)"
      "slice_to (series ns0) (int (length (series_refs (it_At refs u')))) = Inr s"
      "convert rd 0 (series_refs (it_At refs u')) (ns0\<lparr>series := s\<rparr>)
             (cr_reset rd (chunkReaders c)) (arrays w0) = Inr (e1, ns1, r1, mem1)"
      "cr_load rd r1 (series ns1) (BatchBytes (batches w0)) mem1 = (e2, r2, b2, mem2)"
      by blast
    from Next_batch [OF True nx' this] assms have "err c' \<noteq> None"
      by (cases e1; cases e2) auto
    then show ?thesis by (simp add: stopped_def)
  qed
qed

lemma stopped_Next:
  assumes law: "exhaustion_is_final refs" and st: "stopped refs c"
  shows "\<exists>c'. loadingSeriesChunksSetIterator_Next refs rd pick c w = Inr (False, c', w)
           \<and> stopped refs c' \<and> err c' = err c"
proof (cases "err c = None")
  case False
  then show ?thesis using st by (simp add: Next_latched)
next
  case True
  with st obtain u0 where u0: "it_Next refs u0 = (False, from_refs c)"
    and noerr: "it_Err refs (from_refs c) = None"
    by (auto simp add: stopped_def)
  obtain ok u' where nx: "it_Next refs (from_refs c) = (ok, u')"
    by (cases "it_Next refs (from_refs c)")
  from law u0
  have "\<not> fst (it_Next refs (from_refs c))
        \<and> it_Err refs (snd (it_Next refs (from_refs c))) = it_Err refs (from_refs c)"
    unfolding exhaustion_is_final_def by blast
  with nx have ok: "\<not> ok" and e: "it_Err refs u' = it_Err refs (from_refs c)"
    by simp_all
  from ok nx True
  have "loadingSeriesChunksSetIterator_Next refs rd pick c w
          = Inr (False, c\<lparr>from_refs := u', err := it_Err refs u'\<rparr>, w)"
    by (simp add: Next_exhausted)
  moreover from nx ok e noerr have "stopped refs (c\<lparr>from_refs := u', err := it_Err refs u'\<rparr>)"
    by (auto simp add: stopped_def)
  moreover from e noerr True have "err (c\<lparr>from_refs := u', err := it_Err refs u'\<rparr>) = err c"
    by simp
  ultimately show ?thesis by blast
qed

lemma loading_calls_stopped:
  assumes "exhaustion_is_final refs" and "stopped refs c"
  shows "\<exists>c'. loading_calls refs rd picks c w
                 = Inr (replicate (length picks) (False, err c), c', w)
           \<and> err c' = err c"
  using assms(2)
proof (induction picks arbitrary: c)
  case Nil
  show ?case by simp
next
  case (Cons pick picks)
  from stopped_Next [OF assms(1) Cons.prems, of rd pick w]
  obtain c1 where c1: "loadingSeriesChunksSetIterator_Next refs rd pick c w = Inr (False, c1, w)"
    "stopped refs c1" "err c1 = err c"
    by blast
  from Cons.IH [OF c1(2)] obtain c2 where
    "loading_calls refs rd picks c1 w = Inr (replicate (length picks) (False, err c1), c2, w)"
    "err c2 = err c1"
    by blast
  with c1 show ?case
    by (simp add: loadingSeriesChunksSetIterator_Err_def)
qed

lemma loading_calls_false_is_final:
  assumes "exhaustion_is_final refs" and "loading_calls refs rd picks c w = Inr (rs, c', w')"
  shows "false_is_final rs"
  using assms(2)
proof (induction picks arbitrary: c w rs)
  case Nil
  then show ?case by simp
next
  case (Cons pick picks)
  from Cons.prems obtain ok c1 w1 where
    nx: "loadingSeriesChunksSetIterator_Next refs rd pick c w = Inr (ok, c1, w1)"
    by (auto split: sum.splits)
  with Cons.prems obtain rs1 where
    rest: "loading_calls refs rd picks c1 w1 = Inr (rs1, c', w')"
    and rs: "rs = (ok, err c1) # rs1"
    by (auto simp add: loadingSeriesChunksSetIterator_Err_def split: sum.splits)
  from Cons.IH [OF rest] have ih: "false_is_final rs1" .
  have "list_all (\<lambda>r. r = (False, err c1)) rs1" if "\<not> ok"
  proof -
    from nx that have "stopped refs c1" by (simp add: Next_false_stopped)
    from loading_calls_stopped [OF assms(1) this, of rd picks w1] rest
    show ?thesis by (auto simp add: list_all_iff)
  qed
  with ih rs show ?case by simp
qed

text \<open>
  C9: over an upstream that keeps the law, the results of any number of calls of \<open>Next\<close>
  of the loader are false from the first false on, with the same \<open>Err\<close>, and after a
  false the calls do return, leaving the pools alone. For the preloading iterator the
  same holds in every run of the goroutine, the context and the consumer from a new
  iterator, whatever the upstream does; and after a \<open>Next\<close> that returned false every
  \<open>Next\<close> returns at once, false, with the iterator as it is.
\<close>

theorem idempotent_exhaustion:
  "(exhaustion_is_final refs \<and> loading_calls refs rd picks c w = Inr (rs, c', w')
      \<longrightarrow> false_is_final rs)
 \<and> (exhaustion_is_final refs
      \<and> loadingSeriesChunksSetIterator_Next refs rd pick c w = Inr (False, c1, w1)
      \<longrightarrow> (\<exists>c2. loading_calls refs rd picks c1 w1
                   = Inr (replicate (length picks) (False, loadingSeriesChunksSetIterator_Err c1),
                          c2, w1)
              \<and> loadingSeriesChunksSetIterator_Err c2 = loadingSeriesChunksSetIterator_Err c1))
 \<and> (newPreloadingSetIterator zero d n u = Inr p
      \<longrightarrow> false_is_final (fst (run ops zero acts p)))
 \<and> (preload_inv q \<and> preloadingSetIterator_Next q = Some (False, q')
      \<longrightarrow> preloadingSetIterator_Next q' = Some (False, q')
        \<and> fst (run ops zero acts q')
            = replicate (length (filter (\<lambda>a. a = CallNext) acts))
                (False, preloadingSetIterator_Err q'))"
proof (intro conjI impI)
  assume "exhaustion_is_final refs \<and> loading_calls refs rd picks c w = Inr (rs, c', w')"
  then show "false_is_final rs"
    using loading_calls_false_is_final [of refs rd picks c w rs c' w'] by simp
next
  assume a: "exhaustion_is_final refs
      \<and> loadingSeriesChunksSetIterator_Next refs rd pick c w = Inr (False, c1, w1)"
  then have "loadingSeriesChunksSetIterator_Next refs rd pick c w = Inr (False, c1, w1)"
    by simp
  then have "stopped refs c1" by (rule Next_false_stopped)
  with a loading_calls_stopped [of refs c1 rd picks w1]
  show "\<exists>c2. loading_calls refs rd picks c1 w1
                   = Inr (replicate (length picks) (False, loadingSeriesChunksSetIterator_Err c1),
                          c2, w1)
              \<and> loadingSeriesChunksSetIterator_Err c2 = loadingSeriesChunksSetIterator_Err c1"
    by (simp add: loadingSeriesChunksSetIterator_Err_def)
next
  assume "newPreloadingSetIterator zero d n u = Inr p"
  then have "preload_inv p" by (rule preload_inv_new)
  from run_false_is_final [OF this, of ops zero acts] show "false_is_final (fst (run ops zero acts p))"
    by (cases "run ops zero acts p") simp
next
  assume a: "preload_inv q \<and> preloadingSetIterator_Next q = Some (False, q')"
  then have "preload_inv q" "preloadingSetIterator_Next q = Some (False, q')" by simp_all
  then have dr: "drained q'" by (rule Next_false_drained)
  then show "preloadingSetIterator_Next q' = Some (False, q')" by (rule drained_Next)
  from run_drained_results [OF dr]
  show "fst (run ops zero acts q')
            = replicate (length (filter (\<lambda>a. a = CallNext) acts))
                (False, preloadingSetIterator_Err q')"
    by (simp add: preloadingSetIterator_Err_def)
qed

lemma example_preloading_run:
  "newPreloadingSetIterator 0 False 1 0
     = Inr \<lparr>ctx_done = False, from_pre = 0, current_pre = 0, preloaded = [],
            preloaded_cap = 0, preloaded_closed = False, err_it = None,
            preload_pc = AtLoopHead\<rparr>
   \<and> run failing_upstream 0 [Preload False, CallNext, Preload False, CallNext, CallNext]
        \<lparr>ctx_done = False, from_pre = 0, current_pre = 0, preloaded = [],
         preloaded_cap = 0, preloaded_closed = False, err_it = None,
         preload_pc = AtLoopHead\<rparr>
     = ([(True, None), (False, Some (Error ''fetch failed'')),
         (False, Some (Error ''fetch failed''))],
        \<lparr>ctx_done = False, from_pre = 2, current_pre = 0, preloaded = [],
         preloaded_cap = 0, preloaded_closed = True, err_it = Some (Error ''fetch failed''),
         preload_pc = Returned\<rparr>)"
  by (simp add: newPreloadingSetIterator_def failing_upstream_def preload_step_def
        preloadingSetIterator_Next_def receive_def preloadingSetIterator_Err_def Let_def)

lemma good_only_final: "exhaustion_is_final good_only"
  by (simp add: exhaustion_is_final_def good_only_def)

lemma example_loading_calls:
  "loading_calls good_only example_readers [None, None, None]
     (newLoadingSeriesChunksSetIterator [] 0 1) empty_world
   = Inr ([(True, None), (False, None), (False, None)],
          \<lparr>chunkReaders = [(0, 0)], from_refs = 3, fromBatchSize = 1,
           current = loaded_good_batch, err = None\<rparr>,
          loaded_world)"
  by (simp add: loadingSeriesChunksSetIterator_Next_def newLoadingSeriesChunksSetIterator_def
        good_only_def example_readers_def good_batch_def empty_world_def
        newSeriesChunksSet_def pool_Get_def make_slice_def seriesEntry_zero_def
        convert.simps addLoads.simps update_slice_def newSeriesAggrChunkSlice_def
        SlabPool_Get_def NewSlabPool_def seriesChunksSlabSize_def deferred_def
        loaded_good_batch_def loaded_world_def fill_chunk_def AggrChunk_zero_def
        loadingSeriesChunksSetIterator_Err_def numeral_2_eq_2 Let_def)

theorem idempotent_exhaustion_witness:
  "exhaustion_is_final good_only
   \<and> loading_calls good_only example_readers [None, None, None]
        (newLoadingSeriesChunksSetIterator [] 0 1) empty_world
      = Inr ([(True, None), (False, None), (False, None)],
          \<lparr>chunkReaders = [(0, 0)], from_refs = 3, fromBatchSize = 1,
           current = loaded_good_batch, err = None\<rparr>,
          loaded_world)
   \<and> false_is_final [(True, None), (False, None), (False, None)]
   \<and> fst (run failing_upstream 0 [Preload False, CallNext, Preload False, CallNext, CallNext]
        \<lparr>ctx_done = False, from_pre = 0, current_pre = 0, preloaded = [],
         preloaded_cap = 0, preloaded_closed = False, err_it = None,
         preload_pc = AtLoopHead\<rparr>)
     = [(True, None), (False, Some (Error ''fetch failed'')),
        (False, Some (Error ''fetch failed''))]
   \<and> false_is_final [(True, None), (False, Some (Error ''fetch failed'')),
                      (False, Some (Error ''fetch failed''))]"
proof -
  let ?p0 = "\<lparr>ctx_done = False, from_pre = 0::nat, current_pre = 0::nat, preloaded = [],
            preloaded_cap = 0, preloaded_closed = False, err_it = None,
            preload_pc = AtLoopHead\<rparr>"
  let ?acts = "[Preload False, CallNext, Preload False, CallNext, CallNext]"
  note t = idempotent_exhaustion
    [where refs = good_only and rd = example_readers and picks = "[None, None, None]"
       and c = "newLoadingSeriesChunksSetIterator [] 0 1" and w = empty_world
       and rs = "[(True, None), (False, None), (False, None)]"
       and c' = "\<lparr>chunkReaders = [(0, 0)], from_refs = 3, fromBatchSize = 1,
           current = loaded_good_batch, err = None\<rparr>"
       and w' = loaded_world
       and zero = "0::nat" and d = False and n = 1 and u = "0::nat" and p = ?p0
       and ops = failing_upstream and acts = ?acts]
  from t have 1: "exhaustion_is_final good_only
      \<and> loading_calls good_only example_readers [None, None, None]
           (newLoadingSeriesChunksSetIterator [] 0 1) empty_world
         = Inr ([(True, None), (False, None), (False, None)],
             \<lparr>chunkReaders = [(0, 0)], from_refs = 3, fromBatchSize = 1,
              current = loaded_good_batch, err = None\<rparr>,
             loaded_world)
      \<longrightarrow> false_is_final [(True, None), (False, None), (False, None)]"
    by (rule conjunct1)
  from t have 2: "newPreloadingSetIterator 0 False 1 0 = Inr ?p0
      \<longrightarrow> false_is_final (fst (run failing_upstream 0 ?acts ?p0))"
    by blast
  from example_preloading_run
  have new: "newPreloadingSetIterator 0 False 1 0 = Inr ?p0"
    and r: "run failing_upstream 0 ?acts ?p0
     = ([(True, None), (False, Some (Error ''fetch failed'')),
         (False, Some (Error ''fetch failed''))],
        \<lparr>ctx_done = False, from_pre = 2, current_pre = 0, preloaded = [],
         preloaded_cap = 0, preloaded_closed = True, err_it = Some (Error ''fetch failed''),
         preload_pc = Returned\<rparr>)"
    by (rule conjunct1, rule conjunct2)
  from 1 good_only_final example_loading_calls
  have a: "false_is_final [(True, None), (False, None), (False, None)]"
    by (intro mp [OF 1] conjI)
  from new 2 have "false_is_final (fst (run failing_upstream 0 ?acts ?p0))"
    by (rule rev_mp)
  then have b: "false_is_final [(True, None), (False, Some (Error ''fetch failed'')),
                      (False, Some (Error ''fetch failed''))]"
    by (simp only: r fst_conv)
  have c: "fst (run failing_upstream 0 ?acts ?p0)
     = [(True, None), (False, Some (Error ''fetch failed'')),
        (False, Some (Error ''fetch failed''))]"
    by (simp only: r fst_conv)
  from good_only_final example_loading_calls a c b show ?thesis by (intro conjI)
qed

section \<open>The pools that arise\<close>

text \<open>
  The pools that arise: the empty pool has the property, and \<open>Next\<close> of the adapter and
  of the loader, the only callers of \<open>release\<close> and \<open>newSeriesChunksSet\<close>, keep it.
\<close>

lemma adapter_Next_keeps_pool_lengths_zero:
  assumes "pool_lengths_zero w"
  shows "pool_lengths_zero (snd (snd (seriesChunksSeriesSet_Next ops b w)))"
proof -
  from release_keeps_pool_lengths_zero [OF assms, of "currSet b"] assms
  show ?thesis
    by (cases "it_Next ops (from_iter b)"; cases "release (currSet b) w")
       (simp add: seriesChunksSeriesSet_Next_def Let_def)
qed

lemma deferred_keeps_pool_lengths_zero:
  assumes "pool_lengths_zero wm"
  shows "pool_lengths_zero (deferred retHasNext c1 ns nextUnloaded wm)"
  using release_keeps_pool_lengths_zero [OF assms, of ns] assms
  by (simp add: deferred_def Let_def pool_lengths_zero_def)

lemma loader_Next_keeps_pool_lengths_zero:
  assumes pool: "pool_lengths_zero w"
    and nx: "loadingSeriesChunksSetIterator_Next refs rd pick c w = Inr (ok, c', w')"
  shows "pool_lengths_zero w'"
proof (cases "err c = None")
  case False
  with nx Next_latched [of c refs rd pick w] pool show ?thesis by simp
next
  case True
  obtain ok1 u' where u: "it_Next refs (from_refs c) = (ok1, u')"
    by (cases "it_Next refs (from_refs c)")
  show ?thesis
  proof (cases ok1)
    case False
    with True u nx pool show ?thesis by (simp add: Next_exhausted)
  next
    case ok1: True
    with u have u': "it_Next refs (from_refs c) = (True, u')" by simp
    from Next_batch_InrD [OF True u' nx]
    obtain ns0 w0 s e1 ns1 r1 mem1 e2 r2 b2 mem2 where d:
      "newSeriesChunksSet (max (fromBatchSize c) (int (length (series_refs (it_At refs u')))))
             True pick w = Inr (ns0, w0)"
      "slice_to (series ns0) (int (length (series_refs (it_At refs u')))) = Inr s"
      "convert rd 0 (series_refs (it_At refs u')) (ns0\<lparr>series := s\<rparr>)
             (cr_reset rd (chunkReaders c)) (arrays w0) = Inr (e1, ns1, r1, mem1)"
      "cr_load rd r1 (series ns1) (BatchBytes (batches w0)) mem1 = (e2, r2, b2, mem2)"
      by blast
    from newSeriesChunksSet_InrD [OF d(1)] pool_Get_keeps_lengths_zero [OF pool, of pick]
    have "pool_lengths_zero w0" by simp
    then have p1: "pool_lengths_zero (w0\<lparr>arrays := mem1\<rparr>)"
      "pool_lengths_zero (w0\<lparr>batches := Suc (batches w0), arrays := mem2\<rparr>)"
      by (simp_all add: pool_lengths_zero_def)
    from Next_batch [OF True u' d] nx p1 show ?thesis
      by (cases e1; cases e2) (auto simp add: deferred_keeps_pool_lengths_zero)
  qed
qed

lemma empty_world_pool_lengths_zero: "pool_lengths_zero empty_world"
  by (simp add: pool_lengths_zero_def empty_world_def)

end
